theory Spec2Isabelle
  imports Main
begin

section \<open>Strings and the string operations the program uses\<close>

text \<open>
  The program is \<^verbatim>\<open>reflow_latex.py\<close>. Python strings are modelled as HOL strings: a list
  of 8-bit characters, each read as one code point below 256, so that \<open>length\<close> is
  Python's \<^verbatim>\<open>len\<close> on such text.
\<close>

definition bslash :: char where
  "bslash = CHR 0x5C"

definition newline :: char where
  "newline = CHR 0x0A"

definition tab :: char where
  "tab = CHR 0x09"

definition squote :: char where
  "squote = CHR 0x27"

definition bquote :: char where
  "bquote = CHR 0x60"

text \<open>\<^verbatim>\<open>str.isspace\<close> on the code points below 256.\<close>

definition is_space :: "char \<Rightarrow> bool" where
  "is_space c = (c \<in> set [CHR 0x09, CHR 0x0A, CHR 0x0B, CHR 0x0C, CHR 0x0D,
                           CHR 0x1C, CHR 0x1D, CHR 0x1E, CHR 0x1F, CHR 0x20,
                           CHR 0x85, CHR 0xA0])"

text \<open>\<^verbatim>\<open>s.strip()\<close> and \<^verbatim>\<open>s.strip('\n')\<close>.\<close>

definition strip_with :: "(char \<Rightarrow> bool) \<Rightarrow> string \<Rightarrow> string" where
  "strip_with p s = rev (dropWhile p (rev (dropWhile p s)))"

definition strip :: "string \<Rightarrow> string" where
  "strip s = strip_with is_space s"

definition strip_nl :: "string \<Rightarrow> string" where
  "strip_nl s = strip_with (\<lambda>c. c = newline) s"

text \<open>\<^verbatim>\<open>s.split()\<close>: the maximal runs of non-whitespace characters, in order.\<close>

fun split_from :: "string \<Rightarrow> string \<Rightarrow> string list" where
  "split_from w [] = (if w = [] then [] else [w])"
| "split_from w (c # cs) =
     (if is_space c then (if w = [] then split_from [] cs else w # split_from [] cs)
      else split_from (w @ [c]) cs)"

definition split :: "string \<Rightarrow> string list" where
  "split s = split_from [] s"

text \<open>\<^verbatim>\<open>' '.join(xs)\<close>.\<close>

fun join_sp :: "string list \<Rightarrow> string" where
  "join_sp [] = []"
| "join_sp [x] = x"
| "join_sp (x # y # ys) = x @ CHR '' '' # join_sp (y # ys)"

text \<open>\<^verbatim>\<open>sub in s\<close> for strings: \<open>sub\<close> occurs in \<open>s\<close> as a contiguous piece.\<close>

fun contains :: "string \<Rightarrow> string \<Rightarrow> bool" where
  "contains sub [] = (sub = [])"
| "contains sub (c # cs) = (take (length sub) (c # cs) = sub \<or> contains sub cs)"

text \<open>\<^verbatim>\<open>s.lower()\<close> on the code points below 256: the ASCII capitals and the Latin-1
  capitals (all of 0xC0..0xDE but the multiplication sign 0xD7) move up by 32.\<close>

definition lower_char :: "char \<Rightarrow> char" where
  "lower_char c =
     (let n = of_char c :: nat
      in if (65 \<le> n \<and> n \<le> 90) \<or> (192 \<le> n \<and> n \<le> 222 \<and> n \<noteq> 215)
         then char_of (n + 32) else c)"

definition lower :: "string \<Rightarrow> string" where
  "lower s = map lower_char s"

text \<open>\<^verbatim>\<open>xs[a:b]\<close> for indices \<open>0 \<le> a\<close> and \<open>0 \<le> b\<close>.\<close>

definition slice :: "nat \<Rightarrow> nat \<Rightarrow> 'a list \<Rightarrow> 'a list" where
  "slice a b xs = take (b - a) (drop a xs)"

section \<open>Constants\<close>

definition CHARS_OPT :: int where
  "CHARS_OPT = 80"

definition CHARS_LONG :: int where
  "CHARS_LONG = 115"

definition CHARS_MAX :: int where
  "CHARS_MAX = 120"

text \<open>
  The costs are Python floats. Every cost constant and every character count is a whole
  number, and sums of whole numbers are exact in double precision far beyond any cost a
  text can reach, so costs are modelled as integers.
\<close>

definition COST_LINE :: int where
  "COST_LINE = 1 * (CHARS_MAX - CHARS_OPT)"

definition COST_LONG :: int where
  "COST_LONG = 5"

definition COST_TOOLONG :: int where
  "COST_TOOLONG = 100"

definition COST_SHORTDELIMITED :: int where
  "COST_SHORTDELIMITED = 80"

definition COST_FULLSTOP :: int where
  "COST_FULLSTOP = - 55"

definition COST_COMMA :: int where
  "COST_COMMA = - 38"

definition COST_FUNC :: int where
  "COST_FUNC = - 15"

definition FULLSTOPS :: string where
  "FULLSTOPS = ''.!?''"

definition COMMAS :: string where
  "COMMAS = '',:''"

definition FUNC_WORDS :: "string list" where
  "FUNC_WORDS = [''a'', ''and'', ''are'', ''as'', ''but'', ''by'', ''for'', ''having'',
                 ''in'', ''is'', ''of'', ''or'', ''that'', ''this'', ''the'', ''to'', ''using'',
                 ''were'', ''where'', ''when'', ''which'', ''with'', ''without'']"

text \<open>Each delimiter pair as (opening marker, closing marker).\<close>

definition DELIMS :: "(string \<times> string) list" where
  "DELIMS = [(''{'', ''}''), (''('', '')''), (''['', '']''),
             ([bquote, bquote], [squote, squote])]"

definition SHORT_DELIM :: int where
  "SHORT_DELIM = 4"

section \<open>The cost of one line\<close>

definition line_cost :: "string list \<Rightarrow> int" where
  "line_cost line =
     (let n_chars = int (length (join_sp line));
          extra = (if n_chars > CHARS_MAX then COST_TOOLONG else 0);
          extra = (if n_chars > CHARS_LONG then extra + COST_LONG else extra)
      in \<bar>n_chars - CHARS_OPT\<bar> + COST_LINE + extra)"

section \<open>Spans and the classifier\<close>

datatype join = Allow | Prefer | Forbid

text \<open>
  A \<^verbatim>\<open>Span\<close> object. Its content is a string until \<^verbatim>\<open>tokenize\<close> replaces it by a list
  of tokens, so the record is polymorphic in the content. The field \<^verbatim>\<open>segment\<close> is
  named \<open>segment_flag\<close> here, the name \<open>segment\<close> being the function's.
\<close>

record 'c span =
  content :: 'c
  segment_flag :: bool
  join_left :: join
  join_right :: join

text \<open>The constructor called with a string, and called with a list of parts.\<close>

definition Span_str :: "string \<Rightarrow> bool \<Rightarrow> join \<Rightarrow> join \<Rightarrow> string span" where
  "Span_str parts seg jl jr =
     \<lparr>content = parts, segment_flag = seg, join_left = jl, join_right = jr\<rparr>"

definition Span_parts :: "string list \<Rightarrow> bool \<Rightarrow> join \<Rightarrow> join \<Rightarrow> string span" where
  "Span_parts parts seg jl jr =
     \<lparr>content = strip (concat parts), segment_flag = seg, join_left = jl, join_right = jr\<rparr>"

definition tokenize :: "string span \<Rightarrow> string list span" where
  "tokenize sp =
     \<lparr>content = (if segment_flag sp then split (content sp) else [content sp]),
      segment_flag = segment_flag sp, join_left = join_left sp, join_right = join_right sp\<rparr>"

text \<open>\<^verbatim>\<open>RE_STARTSPACE\<close>, \<^verbatim>\<open>^[ \t]\<close>: some match exists.\<close>

definition re_startspace :: "string \<Rightarrow> bool" where
  "re_startspace s = (case s of [] \<Rightarrow> False | c # _ \<Rightarrow> c = CHR '' '' \<or> c = tab)"

text \<open>\<^verbatim>\<open>RE_COMMENT\<close>, a percent sign not preceded by a backslash: some match exists.
  \<open>comment_after p s\<close> looks at \<open>s\<close> knowing the character \<open>p\<close> before it.\<close>

fun comment_after :: "char \<Rightarrow> string \<Rightarrow> bool" where
  "comment_after p [] = False"
| "comment_after p (c # cs) = ((c = CHR ''%'' \<and> p \<noteq> bslash) \<or> comment_after c cs)"

definition re_comment :: "string \<Rightarrow> bool" where
  "re_comment s = (case s of [] \<Rightarrow> False | c # cs \<Rightarrow> c = CHR ''%'' \<or> comment_after c cs)"

text \<open>
  \<^verbatim>\<open>RE_SINGLECOMMAND.match\<close>, \<^verbatim>\<open>^\\.*}%?$\<close>: a backslash, any characters but newlines,
  a closing brace, an optional percent sign, and the end of the string (\<^verbatim>\<open>$\<close> also matches
  before one final newline).
\<close>

definition ends_brace :: "string \<Rightarrow> bool" where
  "ends_brace b = (b \<noteq> [] \<and> last b = CHR ''}'' \<and> newline \<notin> set (butlast b))"

definition ends_brace_pct :: "string \<Rightarrow> bool" where
  "ends_brace_pct b = (b \<noteq> [] \<and> last b = CHR ''%'' \<and> ends_brace (butlast b))"

definition at_dollar :: "(string \<Rightarrow> bool) \<Rightarrow> string \<Rightarrow> bool" where
  "at_dollar p b = (p b \<or> (b \<noteq> [] \<and> last b = newline \<and> p (butlast b)))"

definition re_singlecommand :: "string \<Rightarrow> bool" where
  "re_singlecommand s =
     (case s of [] \<Rightarrow> False
      | c # b \<Rightarrow> c = bslash \<and> (at_dollar ends_brace b \<or> at_dollar ends_brace_pct b))"

text \<open>\<^verbatim>\<open>RE_ENDBREAK\<close>, two backslashes at the end: some match exists.\<close>

definition ends_bslashes :: "string \<Rightarrow> bool" where
  "ends_bslashes b = (length b \<ge> 2 \<and> drop (length b - 2) b = [bslash, bslash])"

definition re_endbreak :: "string \<Rightarrow> bool" where
  "re_endbreak s = at_dollar ends_bslashes s"

text \<open>
  The generator \<^verbatim>\<open>paragraphs\<close>: \<open>paragraphs_loop\<close> is the loop over the lines with the
  accumulator \<^verbatim>\<open>current\<close>, and returns the spans in the order they are yielded.
\<close>

fun paragraphs_loop :: "bool \<Rightarrow> string list \<Rightarrow> string list \<Rightarrow> string span list" where
  "paragraphs_loop hyphenated current [] = [Span_parts current True Allow Allow]"
| "paragraphs_loop hyphenated current (line # lines) =
     (if re_startspace line then
        Span_parts current True Allow Allow
          # Span_str (strip_nl line) False Forbid Forbid
          # paragraphs_loop hyphenated [] lines
      else
        let line = strip line in
        if length line = 0 then
          Span_parts current True Allow Allow
            # Span_str [] False Allow Forbid
            # paragraphs_loop hyphenated [] lines
        else if re_comment line then
          Span_parts current True Allow Allow
            # Span_str line False Prefer Forbid
            # paragraphs_loop hyphenated [] lines
        else if re_singlecommand line then
          Span_parts current True Allow Allow
            # Span_str line False Forbid Forbid
            # paragraphs_loop hyphenated [] lines
        else
          let hy = (hyphenated \<and> last line = CHR ''-'');
              sep = (if hy then [] else '' '');
              line = (if hy then butlast line else line);
              current = current @ [line, sep]
          in if re_endbreak line then
               Span_parts current True Allow Forbid # paragraphs_loop hyphenated [] lines
             else paragraphs_loop hyphenated current lines)"

definition paragraphs :: "string list \<Rightarrow> bool \<Rightarrow> string span list" where
  "paragraphs lines hyphenated = paragraphs_loop hyphenated [] lines"

section \<open>Static costs\<close>

text \<open>
  The state of the loop of \<^verbatim>\<open>static_costs\<close>: the array \<^verbatim>\<open>costs\<close> and the list
  \<^verbatim>\<open>open_delims\<close>. \<open>add_range a b v costs\<close> is \<^verbatim>\<open>costs[a:b] += v\<close>.
\<close>

type_synonym sc_state = "int list \<times> nat option list"

definition add_range :: "nat \<Rightarrow> nat \<Rightarrow> int \<Rightarrow> int list \<Rightarrow> int list" where
  "add_range a b v costs =
     map (\<lambda>(k, c). if a \<le> k \<and> k < b then c + v else c) (enumerate 0 costs)"

text \<open>One pass of the inner loop over \<^verbatim>\<open>enumerate(DELIMS)\<close>, for the token at index \<open>i\<close>.\<close>

definition delim_step :: "nat \<Rightarrow> string \<Rightarrow> nat \<times> string \<times> string \<Rightarrow> sc_state \<Rightarrow> sc_state" where
  "delim_step i token jd st =
     (let (j, opening, closing) = jd;
          (costs, open_delims) = st;
          open_delims = (if contains opening token \<and> \<not> contains closing token
                         then open_delims[j := Some i] else open_delims)
      in case (if contains closing token then open_delims ! j else None) of
           None \<Rightarrow> (costs, open_delims)
         | Some opened \<Rightarrow>
             ((if int opened \<ge> int i - SHORT_DELIM
               then add_range opened i COST_SHORTDELIMITED costs else costs),
              open_delims[j := None]))"

text \<open>The sentence, clause and function-word adjustments for the token at index \<open>i\<close>.\<close>

definition lexical_step :: "nat \<Rightarrow> string \<Rightarrow> int list \<Rightarrow> int list" where
  "lexical_step i token costs =
     (let costs = (if last token \<in> set FULLSTOPS
                   then costs[i := costs ! i + COST_FULLSTOP] else costs);
          costs = (if last token \<in> set COMMAS
                   then costs[i := costs ! i + COST_COMMA] else costs)
      in if lower token \<in> set FUNC_WORDS then
           (let costs = costs[i := costs ! i - COST_FUNC]
            in if i > 0 then costs[i - 1 := costs ! (i - 1) + COST_FUNC] else costs)
         else costs)"

text \<open>One pass of the outer loop over \<^verbatim>\<open>enumerate(line)\<close>.\<close>

definition token_step :: "nat \<times> string \<Rightarrow> sc_state \<Rightarrow> sc_state" where
  "token_step it st =
     (let (i, token) = it in
      if length token = 0 then st
      else fold (delim_step i token) (enumerate 0 DELIMS)
             (lexical_step i token (fst st), snd st))"

definition static_init :: "string list \<Rightarrow> sc_state" where
  "static_init line = (replicate (length line) 0, replicate (length DELIMS) None)"

definition static_costs :: "string list \<Rightarrow> int list" where
  "static_costs line = fst (fold token_step (enumerate 0 line) (static_init line))"

section \<open>The segmenter\<close>

definition noblank :: "string list \<Rightarrow> string list" where
  "noblank tokens = filter (\<lambda>x. length x > 0) tokens"

text \<open>
  An entry of the arrays \<^verbatim>\<open>dpcost\<close> and \<^verbatim>\<open>current\<close>: a finite cost or \<^verbatim>\<open>np.infty\<close>.
\<close>

datatype cost = Fin int | Infty

fun cost_add :: "cost \<Rightarrow> cost \<Rightarrow> cost" where
  "cost_add (Fin a) (Fin b) = Fin (a + b)"
| "cost_add _ _ = Infty"

fun cost_less :: "cost \<Rightarrow> cost \<Rightarrow> bool" where
  "cost_less (Fin a) (Fin b) = (a < b)"
| "cost_less (Fin a) Infty = True"
| "cost_less Infty _ = False"

text \<open>
  \<^verbatim>\<open>np.argmin\<close>: the first index of a least entry. \<open>argmin_scan best bv k xs\<close> scans the
  entries \<open>xs\<close>, which start at index \<open>k\<close>, with \<open>best\<close> the index of the least entry \<open>bv\<close>
  so far. The array it is called on has one entry for each token and is never empty.
\<close>

fun argmin_scan :: "nat \<Rightarrow> cost \<Rightarrow> nat \<Rightarrow> cost list \<Rightarrow> nat" where
  "argmin_scan best bv k [] = best"
| "argmin_scan best bv k (x # xs) =
     (if cost_less x bv then argmin_scan k x (Suc k) xs else argmin_scan best bv (Suc k) xs)"

definition argmin :: "cost list \<Rightarrow> nat" where
  "argmin xs = (case xs of [] \<Rightarrow> 0 | x # xs' \<Rightarrow> argmin_scan 0 x 1 xs')"

text \<open>The inner loop over \<^verbatim>\<open>range(j)\<close>, which fills \<^verbatim>\<open>current\<close>.\<close>

definition fill_current :: "string list \<Rightarrow> cost list \<Rightarrow> nat \<Rightarrow> cost list" where
  "fill_current line dpcost j =
     fold (\<lambda>i current.
             current[i := cost_add (dpcost ! i) (Fin (line_cost (slice (i + 1) j line)))])
          [0..<j] (replicate (length line) Infty)"

text \<open>One pass of the outer loop over \<^verbatim>\<open>range(1, n_tokens)\<close>, on the pair of the arrays
  \<^verbatim>\<open>dpcost\<close> and \<^verbatim>\<open>dpback\<close>.\<close>

definition dp_step :: "string list \<Rightarrow> int list \<Rightarrow> nat \<Rightarrow> cost list \<times> int list \<Rightarrow> cost list \<times> int list" where
  "dp_step line scosts j st =
     (let (dpcost, dpback) = st;
          current = fill_current line dpcost j;
          best = argmin current
      in (dpcost[j := cost_add (current ! best) (Fin (scosts ! (j - 1)))],
          dpback[j := int best]))"

definition dp_init :: "nat \<Rightarrow> cost list \<times> int list" where
  "dp_init n_tokens = ((replicate n_tokens Infty)[0 := Fin 0], (replicate n_tokens 0)[0 := - 1])"

definition dp_table :: "string list \<Rightarrow> cost list \<times> int list" where
  "dp_table line =
     fold (dp_step line (static_costs line)) [1..<length line] (dp_init (length line))"

text \<open>
  The loop \<^verbatim>\<open>while cursor > -1\<close>. Its result is \<open>None\<close> when the loop does not return:
  it runs forever, or \<^verbatim>\<open>dpback[cursor]\<close> is out of range.
\<close>

partial_function (option) walk :: "int list \<Rightarrow> string list \<Rightarrow> int \<Rightarrow> int \<Rightarrow> string list \<Rightarrow> string list option" where
  "walk dpback line prevcursor cursor out =
     (if cursor > - 1 then
        (if cursor < int (length dpback) then
           walk dpback line cursor (dpback ! nat cursor)
             (out @ [join_sp (noblank (slice (nat cursor) (nat prevcursor) line))])
         else None)
      else Some out)"

declare walk.simps [code]

definition segment :: "string list \<Rightarrow> string list option" where
  "segment tokens =
     (let line = [] # tokens;
          n_tokens = length line;
          dpback = snd (dp_table line)
      in map_option rev (walk dpback line (int n_tokens) (last dpback) []))"

section \<open>Joining spans and the pipeline\<close>

text \<open>
  The generator \<^verbatim>\<open>join_spans\<close>: the loop with the variable \<^verbatim>\<open>previous\<close>. Merging is
  \<^verbatim>\<open>previous.content.extend(span.content)\<close>, on lists.
\<close>

fun join_loop :: "'a list span option \<Rightarrow> 'a list span list \<Rightarrow> 'a list span list" where
  "join_loop previous [] = (case previous of None \<Rightarrow> [] | Some p \<Rightarrow> [p])"
| "join_loop previous (sp # spans) =
     (case previous of
        None \<Rightarrow> join_loop (Some sp) spans
      | Some p \<Rightarrow>
          if join_right p = Forbid then p # join_loop (Some sp) spans
          else if join_left sp = Prefer then
            join_loop (Some (p\<lparr>content := content p @ content sp\<rparr>)) spans
          else p # join_loop (Some sp) spans)"

definition join_spans :: "string list span list \<Rightarrow> string list span list" where
  "join_spans spans = join_loop None spans"

fun segment_spans :: "string list span list \<Rightarrow> string list option" where
  "segment_spans [] = Some []"
| "segment_spans (sp # spans) =
     (case (if segment_flag sp then segment (content sp) else Some (content sp)) of
        None \<Rightarrow> None
      | Some segments \<Rightarrow>
          map_option (\<lambda>out. map (\<lambda>seg. seg @ [newline]) segments @ out) (segment_spans spans))"

definition reflow :: "string list \<Rightarrow> string list option" where
  "reflow items = segment_spans (join_spans (map tokenize (paragraphs items True)))"

section \<open>Variants that follow the specification's words\<close>

text \<open>
  The single-command pattern with its optional percent sign present, \<^verbatim>\<open>^\\.*}%$\<close>.
\<close>

definition re_command_pct :: "string \<Rightarrow> bool" where
  "re_command_pct s =
     (case s of [] \<Rightarrow> False | c # b \<Rightarrow> c = bslash \<and> at_dollar ends_brace_pct b)"

text \<open>
  The pipeline in the order the specification gives: the classifier, the span joiner on
  the raw contents (merging is concatenation of the two strings), the tokenizer on the
  merged spans, the segmenter.
\<close>

definition join_spans_raw :: "string span list \<Rightarrow> string span list" where
  "join_spans_raw spans = join_loop None spans"

definition reflow_spec :: "string list \<Rightarrow> string list option" where
  "reflow_spec items = segment_spans (map tokenize (join_spans_raw (paragraphs items True)))"


section \<open>The recurrence of the segmenter, stated declaratively\<close>

text \<open>
  \<open>first_min vs\<close> is the first index at which the list \<open>vs\<close> takes its least value.
  \<open>bestCost line j\<close> is the recurrence over the positions of the token list \<open>line\<close>
  (sentinel included): the candidates for position \<open>j\<close> are, for each \<open>i < j\<close>, the best
  cost at \<open>i\<close> plus the cost of the line \<^verbatim>\<open>line[i+1:j]\<close>; the best cost at \<open>j\<close> is the
  least candidate plus the static cost at \<open>j - 1\<close>, and the back pointer is the first
  index of the least candidate.
\<close>

definition first_min :: "int list \<Rightarrow> nat" where
  "first_min vs = length (takeWhile (\<lambda>v. v \<noteq> Min (set vs)) vs)"

function bestCost :: "string list \<Rightarrow> nat \<Rightarrow> int" where
  "bestCost line j =
     (if j = 0 then 0
      else Min (set (map (\<lambda>i. bestCost line i + line_cost (slice (i + 1) j line)) [0..<j]))
             + static_costs line ! (j - 1))"
  by pat_completeness auto
termination
  by (relation "measure (\<lambda>(line, j). j)") auto

declare bestCost.simps [simp del]

definition candidates :: "string list \<Rightarrow> nat \<Rightarrow> int list" where
  "candidates line j = map (\<lambda>i. bestCost line i + line_cost (slice (i + 1) j line)) [0..<j]"

definition backPointer :: "string list \<Rightarrow> nat \<Rightarrow> nat" where
  "backPointer line j = first_min (candidates line j)"

lemma takeWhile_stops: "\<exists>x \<in> set xs. \<not> P x \<Longrightarrow> length (takeWhile P xs) < length xs"
  by (induction xs) auto

lemma first_min_less: "vs \<noteq> [] \<Longrightarrow> first_min vs < length vs"
proof -
  assume "vs \<noteq> []"
  then have "Min (set vs) \<in> set vs" by (intro Min_in) simp_all
  then have "\<exists>v \<in> set vs. \<not> v \<noteq> Min (set vs)" by blast
  then show ?thesis unfolding first_min_def by (rule takeWhile_stops)
qed

lemma candidates_length: "length (candidates line j) = j"
  by (simp add: candidates_def)

lemma backPointer_less: "0 < j \<Longrightarrow> backPointer line j < j"
proof -
  assume "0 < j"
  then have "candidates line j \<noteq> []" using candidates_length [of line j] by auto
  then show ?thesis
    using first_min_less [of "candidates line j"] by (simp add: backPointer_def candidates_length)
qed

text \<open>
  The lines of tokens that the walk from the cursor \<open>cur\<close> yields, from left to right:
  the walk takes \<^verbatim>\<open>line[cur:prev]\<close> and goes on from the back pointer of \<open>cur\<close>, with
  \<open>cur\<close> as the new right end, and stops after the cursor 0.
\<close>

function groups_from :: "string list \<Rightarrow> nat \<Rightarrow> nat \<Rightarrow> string list list" where
  "groups_from line prev cur =
     (if cur = 0 then [] else groups_from line cur (backPointer line cur)) @ [slice cur prev line]"
  by pat_completeness auto
termination
  by (relation "measure (\<lambda>(line, prev, cur). cur)") (auto simp: backPointer_less)

declare groups_from.simps [simp del]

text \<open>
  The reconstruction in the specification's words: from the position \<open>j\<close> back to 0,
  each segment is \<^verbatim>\<open>tokens[backPointer[j]+1 : j]\<close>.
\<close>

function spec_groups :: "string list \<Rightarrow> nat \<Rightarrow> string list list" where
  "spec_groups line j =
     (if j = 0 then []
      else spec_groups line (backPointer line j) @ [slice (backPointer line j + 1) j line])"
  by pat_completeness auto
termination
  by (relation "measure (\<lambda>(line, j). j)") (auto simp: backPointer_less)

declare spec_groups.simps [simp del]

definition segment_spec :: "nat \<Rightarrow> string list \<Rightarrow> string list" where
  "segment_spec final tokens = map (\<lambda>g. join_sp (noblank g)) (spec_groups ([] # tokens) final)"

text \<open>The value of \<^verbatim>\<open>dpback\<close> at each index, and the tables after the passes below \<open>j\<close>.\<close>

definition bp :: "string list \<Rightarrow> nat \<Rightarrow> int" where
  "bp line j = (if j = 0 then - 1 else int (backPointer line j))"

definition dp_prefix :: "string list \<Rightarrow> nat \<Rightarrow> cost list \<times> int list" where
  "dp_prefix line j = fold (dp_step line (static_costs line)) [1..<j] (dp_init (length line))"

text \<open>\<^verbatim>\<open>s.split(' ')\<close>: the pieces between single spaces.\<close>

fun split_at :: "char \<Rightarrow> string \<Rightarrow> string \<Rightarrow> string list" where
  "split_at c w [] = [w]"
| "split_at c w (x # xs) = (if x = c then w # split_at c [] xs else split_at c (w @ [x]) xs)"

definition split_spaces :: "string \<Rightarrow> string list" where
  "split_spaces s = split_at (CHR '' '') [] s"

text \<open>Two tokens of 70 letters for the examples, and a span of 25 words.\<close>

definition seventy_a :: string where
  "seventy_a = replicate 70 (CHR ''a'')"

definition seventy_b :: string where
  "seventy_b = replicate 70 (CHR ''b'')"

definition words25 :: "string list" where
  "words25 = replicate 25 ''word''"

text \<open>A token that opens three delimiters, 117 characters long.\<close>

definition nested_open :: string where
  "nested_open = ''([{'' @ replicate 114 (CHR ''a'')"

section \<open>The states of the loop of the static costs\<close>

text \<open>
  A token opens a delimiter pair when it contains the opening marker and not the closing
  one, and closes it when it contains the closing marker. The pair is open at the index
  \<open>opened\<close> before the token \<open>i\<close> when the token at \<open>opened\<close> is the last one before \<open>i\<close>
  that opens it and no token between them closes it. \<open>open_upto\<close> computes the same
  from left to right. \<open>static_state line i\<close> is the state of \<^verbatim>\<open>static_costs\<close> before the
  token \<open>i\<close>, and \<open>delim_state line i j\<close> the state before the pass for the pair \<open>j\<close> at
  the token \<open>i\<close>.
\<close>

definition opens :: "string \<times> string \<Rightarrow> string \<Rightarrow> bool" where
  "opens d token = (contains (fst d) token \<and> \<not> contains (snd d) token)"

definition closes :: "string \<times> string \<Rightarrow> string \<Rightarrow> bool" where
  "closes d token = contains (snd d) token"

definition open_at :: "string \<times> string \<Rightarrow> string list \<Rightarrow> nat \<Rightarrow> nat \<Rightarrow> bool" where
  "open_at d line opened i =
     (opened < i \<and> opens d (line ! opened)
      \<and> (\<forall>k \<in> {opened<..<i}. \<not> opens d (line ! k) \<and> \<not> closes d (line ! k)))"

definition step_open :: "string \<times> string \<Rightarrow> string \<Rightarrow> nat \<Rightarrow> nat option \<Rightarrow> nat option" where
  "step_open d token i cur =
     (if opens d token then Some i else if closes d token then None else cur)"

fun open_upto :: "string \<times> string \<Rightarrow> string list \<Rightarrow> nat \<Rightarrow> nat option" where
  "open_upto d line 0 = None"
| "open_upto d line (Suc i) = step_open d (line ! i) i (open_upto d line i)"

definition static_state :: "string list \<Rightarrow> nat \<Rightarrow> sc_state" where
  "static_state line i = fold token_step (take i (enumerate 0 line)) (static_init line)"

definition delim_state :: "string list \<Rightarrow> nat \<Rightarrow> nat \<Rightarrow> sc_state" where
  "delim_state line i j =
     fold (delim_step i (line ! i)) (take j (enumerate 0 DELIMS))
       (lexical_step i (line ! i) (fst (static_state line i)), snd (static_state line i))"

section \<open>The classes of lines\<close>

text \<open>
  A line is prose when the classifier takes none of its four first branches; for any
  other line, \<open>exempt_span\<close> is the span that the classifier yields for the line itself.
\<close>

definition is_prose :: "string \<Rightarrow> bool" where
  "is_prose l = (\<not> re_startspace l \<and> strip l \<noteq> [] \<and> \<not> re_comment (strip l)
                 \<and> \<not> re_singlecommand (strip l))"

definition exempt_span :: "string \<Rightarrow> string span" where
  "exempt_span l =
     (if re_startspace l then Span_str (strip_nl l) False Forbid Forbid
      else if strip l = [] then Span_str [] False Allow Forbid
      else if re_comment (strip l) then Span_str (strip l) False Prefer Forbid
      else Span_str (strip l) False Forbid Forbid)"

section \<open>Prose paragraphs and texts that are stable under a second run\<close>

text \<open>
  \<open>prose_part l\<close> is what the classifier appends to its accumulator for a prose line (the
  stripped line, without a hyphen at its end, and the separator). A prose line is
  breaking when what is appended ends in a hard line break, which closes the paragraph
  with the line in it, and plain otherwise. A text \<open>t\<close> of an output line is stable when a
  second run takes it as plain prose and does not join it to the next line without a
  space. A separator is a line that is not prose and not a comment: it starts with a
  space or a tab, is blank, or is a single command. \<open>settled block items\<close> reads \<open>items\<close>
  as paragraphs, \<open>block\<close> being the plain lines of the paragraph so far. It holds when the
  output of every paragraph closed by a separator or by the end of the input is one line
  that does not end in a hyphen, or has only stable lines, and the output of every
  paragraph closed by a breaking line has only stable lines before its last one.
\<close>

definition prose_part :: "string \<Rightarrow> string list" where
  "prose_part l =
     (let line = strip l; hy = (last line = CHR ''-'')
      in [if hy then butlast line else line, if hy then [] else '' ''])"

definition plain_prose :: "string \<Rightarrow> bool" where
  "plain_prose l = (is_prose l \<and> \<not> re_endbreak (hd (prose_part l)))"

definition breaking_prose :: "string \<Rightarrow> bool" where
  "breaking_prose l = (is_prose l \<and> re_endbreak (hd (prose_part l)))"

definition stable_line :: "string \<Rightarrow> bool" where
  "stable_line t =
     (t \<noteq> [] \<and> \<not> re_singlecommand t \<and> last t \<noteq> CHR ''-'' \<and> \<not> re_endbreak t)"

definition ok_token :: "string \<Rightarrow> bool" where
  "ok_token t = (t \<noteq> [] \<and> (\<forall>c \<in> set t. \<not> is_space c))"

definition separator :: "string \<Rightarrow> bool" where
  "separator l = (\<not> is_prose l \<and> join_left (exempt_span l) \<noteq> Prefer)"

definition single_line :: "string list \<Rightarrow> bool" where
  "single_line out = (case out of [l] \<Rightarrow> last (butlast l) \<noteq> CHR ''-'' | _ \<Rightarrow> False)"

definition stable_block :: "string list \<Rightarrow> bool" where
  "stable_block block =
     (case reflow block of None \<Rightarrow> False
      | Some out \<Rightarrow> single_line out \<or> list_all (\<lambda>line. stable_line (butlast line)) out)"

definition stable_break_block :: "string list \<Rightarrow> bool" where
  "stable_break_block block =
     (case reflow block of None \<Rightarrow> False
      | Some out \<Rightarrow> list_all (\<lambda>line. stable_line (butlast line)) (butlast out))"

fun settled :: "string list \<Rightarrow> string list \<Rightarrow> bool" where
  "settled block [] = stable_block block"
| "settled block (l # ls) =
     (if plain_prose l then settled (block @ [l]) ls
      else if breaking_prose l then stable_break_block (block @ [l]) \<and> settled [] ls
      else separator l \<and> stable_block block \<and> settled [] ls)"

text \<open>A word of 80 characters that ends in a hyphen, and a word of 40 characters.\<close>

definition hyphen_word :: string where
  "hyphen_word = replicate 79 (CHR ''a'') @ ''-''"

definition mid_word :: string where
  "mid_word = replicate 40 (CHR ''b'')"

text \<open>
  A command of 77 characters, a word of 72 that ends in a hard line break, and words of
  21 and 22 letters.
\<close>

definition command70 :: string where
  "command70 = [bslash] @ ''emph{'' @ replicate 70 (CHR ''a'') @ ''}''"

definition break70 :: string where
  "break70 = replicate 70 (CHR ''a'') @ [bslash, bslash]"

definition word21 :: string where
  "word21 = replicate 21 (CHR ''w'')"

definition word22 :: string where
  "word22 = replicate 22 (CHR ''w'')"

text \<open>Words of 130 and of 80 letters.\<close>

definition word130 :: string where
  "word130 = replicate 130 (CHR ''a'')"

definition word80 :: string where
  "word80 = replicate 80 (CHR ''b'')"

section \<open>Properties\<close>

subsection \<open>Line cost\<close>

text \<open>
  C6. For every token list, with \<open>n\<close> the length of the tokens joined by single spaces,
  the line cost is \<open>|n - 80| + 40\<close>, plus 100 when \<open>n\<close> is above the hard limit 120, plus 5
  when \<open>n\<close> is above the long threshold 115; a line shorter than the target width 80
  costs the linear deviation and the line weight only.
\<close>

theorem line_cost_formula:
  "line_cost line =
     \<bar>int (length (join_sp line)) - 80\<bar> + 40
       + (if int (length (join_sp line)) > 120 then 100 else 0)
       + (if int (length (join_sp line)) > 115 then 5 else 0)
   \<and> (int (length (join_sp line)) < 80 \<longrightarrow>
        line_cost line = (80 - int (length (join_sp line))) + 40)"
  by (simp add: line_cost_def Let_def CHARS_OPT_def CHARS_LONG_def CHARS_MAX_def
        COST_LINE_def COST_LONG_def COST_TOOLONG_def)

theorem line_cost_formula_witness:
  "line_cost [''The'', ''quick'', ''fox''] = 107
   \<and> int (length (join_sp [''The'', ''quick'', ''fox''])) < 80"
  using line_cost_formula [of "[''The'', ''quick'', ''fox'']"] by simp

subsection \<open>The classifier\<close>

lemma comment_after_brace_pct: "comment_after p (xs @ CHR ''}'' # CHR ''%'' # ys)"
  by (induction xs arbitrary: p) (simp_all add: bslash_def)

lemma ends_brace_pct_shape:
  assumes "ends_brace_pct b"
  shows "\<exists>xs. b = xs @ [CHR ''}'', CHR ''%'']"
proof -
  from assms have b: "b \<noteq> []" "last b = CHR ''%''" "butlast b \<noteq> []" "last (butlast b) = CHR ''}''"
    by (simp_all add: ends_brace_pct_def ends_brace_def)
  have "b = butlast b @ [last b]" using b(1) by simp
  also have "butlast b = butlast (butlast b) @ [last (butlast b)]" using b(3) by simp
  finally show ?thesis using b by auto
qed

lemma at_dollar_pct_comment:
  assumes "at_dollar ends_brace_pct b"
  shows "comment_after p b"
proof -
  from assms consider "ends_brace_pct b" | "b \<noteq> []" "ends_brace_pct (butlast b)"
    by (auto simp: at_dollar_def)
  then show ?thesis
  proof cases
    case 1
    then obtain xs where "b = xs @ [CHR ''}'', CHR ''%'']" using ends_brace_pct_shape by blast
    then show ?thesis using comment_after_brace_pct [of p xs "[]"] by simp
  next
    case 2
    then obtain xs where "butlast b = xs @ [CHR ''}'', CHR ''%'']" using ends_brace_pct_shape by blast
    with 2(1) have "b = xs @ CHR ''}'' # CHR ''%'' # [last b]"
      by (metis append.assoc append_Cons append_Nil append_butlast_last_id)
    then show ?thesis using comment_after_brace_pct [of p xs "[last b]"] by simp
  qed
qed

lemma command_pct_is_comment: "re_command_pct s \<Longrightarrow> re_comment s"
  by (auto simp: re_command_pct_def re_comment_def at_dollar_pct_comment split: list.splits)

text \<open>
  C10. A line that does not start with a space or a tab and whose stripped text matches
  the single-command pattern with the percent sign present holds an unescaped comment
  marker, so the classifier, which tests for the comment first, yields it as a comment
  span (join_left prefer, join_right forbid). Hence on every text that reaches the
  single-command test the pattern matches exactly when its form without the percent
  sign does: the percent alternative decides nothing.
\<close>

theorem trailing_percent_is_comment:
  "(\<not> re_startspace line \<and> re_command_pct (strip line) \<longrightarrow>
      re_comment (strip line)
      \<and> paragraphs_loop hyphenated current (line # lines) =
          Span_parts current True Allow Allow
            # Span_str (strip line) False Prefer Forbid
            # paragraphs_loop hyphenated [] lines
      \<and> content (paragraphs_loop hyphenated current (line # lines) ! 1) = strip line
      \<and> \<not> segment_flag (paragraphs_loop hyphenated current (line # lines) ! 1)
      \<and> join_left (paragraphs_loop hyphenated current (line # lines) ! 1) = Prefer
      \<and> join_right (paragraphs_loop hyphenated current (line # lines) ! 1) = Forbid)
   \<and> (\<not> re_comment s \<longrightarrow> re_singlecommand s = (case s of [] \<Rightarrow> False | c # b \<Rightarrow> c = bslash \<and> at_dollar ends_brace b))"
proof (intro conjI impI)
  assume a: "\<not> re_startspace line \<and> re_command_pct (strip line)"
  then show c: "re_comment (strip line)" using command_pct_is_comment by blast
  from a have ne: "strip line \<noteq> []" by (auto simp: re_command_pct_def)
  show e: "paragraphs_loop hyphenated current (line # lines) =
          Span_parts current True Allow Allow
            # Span_str (strip line) False Prefer Forbid
            # paragraphs_loop hyphenated [] lines"
    using a c ne by (simp add: Let_def)
  show "content (paragraphs_loop hyphenated current (line # lines) ! 1) = strip line"
    unfolding e by (simp add: Span_str_def)
  show "\<not> segment_flag (paragraphs_loop hyphenated current (line # lines) ! 1)"
    unfolding e by (simp add: Span_str_def)
  show "join_left (paragraphs_loop hyphenated current (line # lines) ! 1) = Prefer"
    unfolding e by (simp add: Span_str_def)
  show "join_right (paragraphs_loop hyphenated current (line # lines) ! 1) = Forbid"
    unfolding e by (simp add: Span_str_def)
next
  assume "\<not> re_comment s"
  then have "\<not> re_command_pct s" using command_pct_is_comment by blast
  then show "re_singlecommand s = (case s of [] \<Rightarrow> False | c # b \<Rightarrow> c = bslash \<and> at_dollar ends_brace b)"
    by (auto simp: re_singlecommand_def re_command_pct_def split: list.splits)
qed

theorem trailing_percent_is_comment_witness:
  "\<not> re_startspace ([bslash] @ ''foo{x}%'' @ [newline])
   \<and> re_command_pct (strip ([bslash] @ ''foo{x}%'' @ [newline]))
   \<and> re_comment (strip ([bslash] @ ''foo{x}%'' @ [newline]))
   \<and> paragraphs_loop True [] [[bslash] @ ''foo{x}%'' @ [newline]] =
        Span_parts [] True Allow Allow
          # Span_str (strip ([bslash] @ ''foo{x}%'' @ [newline])) False Prefer Forbid
          # paragraphs_loop True [] []
   \<and> content (paragraphs_loop True [] [[bslash] @ ''foo{x}%'' @ [newline]] ! 1)
        = strip ([bslash] @ ''foo{x}%'' @ [newline])
   \<and> \<not> segment_flag (paragraphs_loop True [] [[bslash] @ ''foo{x}%'' @ [newline]] ! 1)
   \<and> join_left (paragraphs_loop True [] [[bslash] @ ''foo{x}%'' @ [newline]] ! 1) = Prefer
   \<and> join_right (paragraphs_loop True [] [[bslash] @ ''foo{x}%'' @ [newline]] ! 1) = Forbid
   \<and> \<not> re_comment ([bslash] @ ''foo{x}'')
   \<and> re_singlecommand ([bslash] @ ''foo{x}'')"
proof -
  have a: "\<not> re_startspace ([bslash] @ ''foo{x}%'' @ [newline])" by code_simp
  have b: "re_command_pct (strip ([bslash] @ ''foo{x}%'' @ [newline]))" by code_simp
  have c: "\<not> re_comment ([bslash] @ ''foo{x}'')" by code_simp
  have d: "(case [bslash] @ ''foo{x}'' of [] \<Rightarrow> False | c # b \<Rightarrow> c = bslash \<and> at_dollar ends_brace b)"
    by code_simp
  show ?thesis
    using a b c d
      trailing_percent_is_comment [of "[bslash] @ ''foo{x}%'' @ [newline]" True "[]" "[]"
        "[bslash] @ ''foo{x}''"]
    by blast
qed










subsection \<open>The order of the pipeline\<close>

lemma join_loop_no_prefer:
  "\<forall>sp \<in> set spans. join_left sp \<noteq> Prefer \<Longrightarrow>
   join_loop previous spans = (case previous of None \<Rightarrow> [] | Some p \<Rightarrow> [p]) @ spans"
  by (induction spans arbitrary: previous) (auto split: option.splits)

lemma paragraphs_loop_no_prefer:
  "\<forall>l \<in> set lines. re_startspace l \<or> \<not> re_comment (strip l) \<Longrightarrow>
   \<forall>sp \<in> set (paragraphs_loop hyphenated current lines). join_left sp \<noteq> Prefer"
  by (induction lines arbitrary: current) (auto simp add: Let_def Span_parts_def Span_str_def)

lemma join_left_tokenize: "join_left (tokenize sp) = join_left sp"
  by (simp add: tokenize_def)

text \<open>
  C5, as amended. The pipeline tokenizes every classifier span first and joins the
  token lists afterwards, and segments last. Where no line carries an unescaped comment
  marker (apart from lines that start with a space or a tab), nothing is merged, and the
  pipeline agrees with the order classifier, joiner on raw contents, tokenizer, segmenter.
\<close>

theorem tokenize_before_join:
  "reflow items = segment_spans (join_spans (map tokenize (paragraphs items True)))
   \<and> ((\<forall>l \<in> set items. re_startspace l \<or> \<not> re_comment (strip l)) \<longrightarrow>
        join_spans (map tokenize (paragraphs items True)) = map tokenize (paragraphs items True)
        \<and> reflow items = reflow_spec items)"
proof (intro conjI impI)
  show "reflow items = segment_spans (join_spans (map tokenize (paragraphs items True)))"
    by (simp add: reflow_def)
next
  assume a: "\<forall>l \<in> set items. re_startspace l \<or> \<not> re_comment (strip l)"
  then have np: "\<forall>sp \<in> set (paragraphs items True). join_left sp \<noteq> Prefer"
    by (simp add: paragraphs_def paragraphs_loop_no_prefer)
  then have 1: "join_spans_raw (paragraphs items True) = paragraphs items True"
    by (simp add: join_spans_raw_def join_loop_no_prefer)
  from np have "\<forall>sp \<in> set (map tokenize (paragraphs items True)). join_left sp \<noteq> Prefer"
    by (simp add: join_left_tokenize)
  then show 2: "join_spans (map tokenize (paragraphs items True)) = map tokenize (paragraphs items True)"
    by (simp add: join_spans_def join_loop_no_prefer)
  show "reflow items = reflow_spec items"
    by (simp add: reflow_def reflow_spec_def 1 2)
qed

lemma ex_reflow: "reflow [''hello'' @ [newline], ''%c'' @ [newline]] = Some [''hello %c'' @ [newline]]"
  by code_simp

lemma ex_reflow_spec: "reflow_spec [''hello'' @ [newline], ''%c'' @ [newline]] = Some [''hello%c'' @ [newline]]"
  by code_simp

text \<open>
  C5 as stated fails: a comment line after a prose line is merged as one more token,
  which the segmenter sets off by a space; merged as raw text it would run into the
  last word.
\<close>

theorem join_before_tokenize_counterexample:
  "reflow [''hello'' @ [newline], ''%c'' @ [newline]] \<noteq> reflow_spec [''hello'' @ [newline], ''%c'' @ [newline]]"
  unfolding ex_reflow ex_reflow_spec by simp

theorem tokenize_before_join_witness:
  "re_startspace (''  x'' @ [newline]) \<and> \<not> re_comment (strip (''hello'' @ [newline]))
   \<and> reflow [''hello'' @ [newline], ''  x'' @ [newline]] = reflow_spec [''hello'' @ [newline], ''  x'' @ [newline]]
   \<and> reflow [''hello'' @ [newline], ''  x'' @ [newline]] = Some [''hello'' @ [newline], ''  x'' @ [newline]]"
proof -
  have a: "re_startspace (''  x'' @ [newline])" by code_simp
  have b: "\<not> re_comment (strip (''hello'' @ [newline]))" by code_simp
  have c: "reflow [''hello'' @ [newline], ''  x'' @ [newline]] = Some [''hello'' @ [newline], ''  x'' @ [newline]]"
    by code_simp
  from a b have "\<forall>l \<in> set [''hello'' @ [newline], ''  x'' @ [newline]]. re_startspace l \<or> \<not> re_comment (strip l)"
    by simp
  with tokenize_before_join [of "[''hello'' @ [newline], ''  x'' @ [newline]]"]
  have "reflow [''hello'' @ [newline], ''  x'' @ [newline]] = reflow_spec [''hello'' @ [newline], ''  x'' @ [newline]]"
    by blast
  with a b c show ?thesis by blast
qed

subsection \<open>The segmenter\<close>

lemma Min_insert_list:
  "Min (insert (v::int) (set vs)) = (if vs = [] then v else min v (Min (set vs)))"
  by simp

lemma first_min_Cons:
  "first_min (v # vs) = (if vs \<noteq> [] \<and> Min (set vs) < v then Suc (first_min vs) else 0)"
proof (cases "vs = []")
  case True
  then show ?thesis by (simp add: first_min_def)
next
  case False
  then have M: "Min (set (v # vs)) = min v (Min (set vs))" by simp
  show ?thesis
  proof (cases "Min (set vs) < v")
    case True
    with M have "Min (set (v # vs)) = Min (set vs)" by simp
    then show ?thesis using True False by (simp add: first_min_def)
  next
    case False
    with M have "Min (set (v # vs)) = v" by simp
    then show ?thesis using False by (simp add: first_min_def)
  qed
qed

lemma argmin_scan_Infty: "argmin_scan best bv k (replicate m Infty) = best"
  by (induction m arbitrary: k) simp_all

lemma argmin_scan_Fin:
  "argmin_scan best (Fin bv) k (map Fin vs @ replicate m Infty) =
     (if vs \<noteq> [] \<and> Min (set vs) < bv then k + first_min vs else best)"
proof (induction vs arbitrary: best bv k)
  case Nil
  then show ?case by (simp add: argmin_scan_Infty)
next
  case (Cons v vs)
  show ?case
  proof (cases "v < bv")
    case True
    then show ?thesis using Cons.IH [of k v "Suc k"]
      by (auto simp: first_min_Cons Min_insert_list simp del: Min_insert)
  next
    case False
    then show ?thesis using Cons.IH [of best bv "Suc k"]
      by (auto simp: first_min_Cons Min_insert_list simp del: Min_insert)
  qed
qed

lemma argmin_Fin:
  "vs \<noteq> [] \<Longrightarrow> argmin (map Fin vs @ replicate m Infty) = first_min vs"
proof (cases vs)
  case Nil
  assume "vs \<noteq> []"
  with Nil show ?thesis by simp
next
  case (Cons v vs')
  show ?thesis unfolding Cons argmin_def
    using argmin_scan_Fin [of 0 v 1 vs' m] by (simp add: first_min_Cons)
qed


lemma first_min_nth: "vs \<noteq> [] \<Longrightarrow> vs ! first_min vs = Min (set vs)"
  using first_min_less [of vs] nth_length_takeWhile [of "\<lambda>v. v \<noteq> Min (set vs)" vs]
  by (simp add: first_min_def)

lemma takeWhile_before: "k < length (takeWhile P xs) \<Longrightarrow> P (xs ! k) \<and> k < length xs"
proof (induction xs arbitrary: k)
  case Nil
  then show ?case by simp
next
  case (Cons x xs)
  then show ?case by (cases k) (auto split: if_splits)
qed

lemma first_min_first: "k < first_min vs \<Longrightarrow> Min (set vs) < vs ! k"
proof -
  assume "k < first_min vs"
  then have a: "vs ! k \<noteq> Min (set vs)" and b: "k < length vs"
    using takeWhile_before [of k "\<lambda>v. v \<noteq> Min (set vs)" vs] by (simp_all add: first_min_def)
  from b have "Min (set vs) \<le> vs ! k" by simp
  with a show ?thesis by simp
qed

lemma fold_update_shape:
  "k \<le> n \<Longrightarrow>
   fold (\<lambda>i cur. cur[i := g i]) [0..<k] (replicate n d) = map g [0..<k] @ replicate (n - k) d"
proof (induction k)
  case 0
  then show ?case by simp
next
  case (Suc k)
  then have "n - k = Suc (n - Suc k)" by simp
  then have r: "replicate (n - k) d = d # replicate (n - Suc k) d" by simp
  from Suc show ?case by (simp add: list_update_append r)
qed

lemma update_at_boundary:
  "length xs = j \<Longrightarrow> j < n \<Longrightarrow>
   (xs @ replicate (n - j) d)[j := v] = (xs @ [v]) @ replicate (n - Suc j) d"
proof -
  assume a: "length xs = j" "j < n"
  then obtain m where m: "n - j = Suc m" by (metis Suc_diff_Suc)
  then have "n - Suc j = m" by simp
  then show ?thesis using a m by (simp add: list_update_append)
qed

lemma fill_current_shape:
  assumes "j \<le> length line" and "\<forall>i < j. dpcost ! i = Fin (bestCost line i)"
  shows "fill_current line dpcost j =
           map Fin (candidates line j) @ replicate (length line - j) Infty"
proof -
  have "fill_current line dpcost j =
          map (\<lambda>i. cost_add (dpcost ! i) (Fin (line_cost (slice (i + 1) j line)))) [0..<j]
            @ replicate (length line - j) Infty"
    unfolding fill_current_def using assms(1) by (rule fold_update_shape)
  also have "map (\<lambda>i. cost_add (dpcost ! i) (Fin (line_cost (slice (i + 1) j line)))) [0..<j]
             = map Fin (candidates line j)"
    using assms(2) by (simp add: candidates_def)
  finally show ?thesis .
qed

lemma bestCost_candidates:
  "0 < j \<Longrightarrow> bestCost line j = Min (set (candidates line j)) + static_costs line ! (j - 1)"
  by (subst bestCost.simps) (simp add: candidates_def)

lemma dp_prefix_shape:
  "1 \<le> j \<Longrightarrow> j \<le> length line \<Longrightarrow>
   dp_prefix line j =
     (map (\<lambda>i. Fin (bestCost line i)) [0..<j] @ replicate (length line - j) Infty,
      map (bp line) [0..<j] @ replicate (length line - j) 0)"
proof (induction j rule: nat_induct_at_least)
  case base
  then have "length line = Suc (length line - 1)" by simp
  then obtain m where m: "length line = Suc m" by blast
  show ?case
    by (simp add: dp_prefix_def dp_init_def m bp_def bestCost.simps [of line 0])
next
  case (Suc j)
  let ?n = "length line"
  from Suc.prems have jn: "j < ?n" by simp
  have IH: "dp_prefix line j =
     (map (\<lambda>i. Fin (bestCost line i)) [0..<j] @ replicate (?n - j) Infty,
      map (bp line) [0..<j] @ replicate (?n - j) 0)"
    using Suc.IH jn by simp
  let ?dpcost = "map (\<lambda>i. Fin (bestCost line i)) [0..<j] @ replicate (?n - j) Infty"
  let ?dpback = "map (bp line) [0..<j] @ replicate (?n - j) 0"
  have pre: "\<forall>i < j. ?dpcost ! i = Fin (bestCost line i)"
    by (simp add: nth_append)
  have cur: "fill_current line ?dpcost j = map Fin (candidates line j) @ replicate (?n - j) Infty"
    using jn pre by (intro fill_current_shape) simp_all
  have ne: "candidates line j \<noteq> []" using Suc.hyps candidates_length [of line j] by auto
  have am: "argmin (fill_current line ?dpcost j) = backPointer line j"
    unfolding cur backPointer_def using ne by (rule argmin_Fin)
  have bl: "backPointer line j < j"
    using first_min_less [OF ne] by (simp add: backPointer_def candidates_length)
  have val: "fill_current line ?dpcost j ! backPointer line j = Fin (Min (set (candidates line j)))"
    using bl first_min_nth [OF ne]
    by (simp add: cur nth_append candidates_length backPointer_def)
  have step: "dp_step line (static_costs line) j (?dpcost, ?dpback) =
     (?dpcost[j := Fin (bestCost line j)], ?dpback[j := bp line j])"
  proof -
    have "0 < j" using Suc.hyps by simp
    then have "cost_add (fill_current line ?dpcost j ! backPointer line j)
            (Fin (static_costs line ! (j - 1))) = Fin (bestCost line j)"
      by (simp add: val bestCost_candidates)
    moreover have "int (backPointer line j) = bp line j"
      using \<open>0 < j\<close> by (simp add: bp_def)
    ultimately show ?thesis
      unfolding dp_step_def Let_def prod.case am by (simp only:)
  qed
  have "dp_prefix line (Suc j) = dp_step line (static_costs line) j (dp_prefix line j)"
    using Suc.hyps by (simp add: dp_prefix_def)
  also have "\<dots> = (?dpcost[j := Fin (bestCost line j)], ?dpback[j := bp line j])"
    unfolding IH by (rule step)
  also have "\<dots> = (map (\<lambda>i. Fin (bestCost line i)) [0..<Suc j] @ replicate (?n - Suc j) Infty,
      map (bp line) [0..<Suc j] @ replicate (?n - Suc j) 0)"
    using jn by (simp add: update_at_boundary)
  finally show ?case .
qed

lemma dp_table_shape:
  "line \<noteq> [] \<Longrightarrow>
   dp_table line = (map (\<lambda>i. Fin (bestCost line i)) [0..<length line],
                    map (bp line) [0..<length line])"
  using dp_prefix_shape [of "length line" line]
  by (cases line) (simp_all add: dp_table_def dp_prefix_def)

lemma walk_groups:
  assumes "dpback = map (bp line) [0..<n]" and "c < n"
  shows "walk dpback line (int prev) (int c) out =
           Some (out @ rev (map (\<lambda>g. join_sp (noblank g)) (groups_from line prev c)))"
  using assms(2)
proof (induction c arbitrary: prev out rule: less_induct)
  case (less c)
  have len: "length dpback = n" using assms(1) by simp
  have nth: "dpback ! c = bp line c" using assms(1) less.prems by simp
  show ?case
  proof (cases "c = 0")
    case True
    have "walk dpback line (int prev) (int c) out =
            walk dpback line (int c) (- 1) (out @ [join_sp (noblank (slice c prev line))])"
      using less.prems len nth True by (subst walk.simps) (simp add: bp_def)
    also have "\<dots> = Some (out @ [join_sp (noblank (slice c prev line))])"
      by (subst walk.simps) simp
    finally show ?thesis using True by (simp add: groups_from.simps [of line prev 0])
  next
    case False
    then have b: "backPointer line c < c" by (simp add: backPointer_less)
    have "walk dpback line (int prev) (int c) out =
            walk dpback line (int c) (int (backPointer line c))
              (out @ [join_sp (noblank (slice c prev line))])"
      using less.prems len nth False by (subst walk.simps) (simp add: bp_def)
    also have "\<dots> = Some ((out @ [join_sp (noblank (slice c prev line))])
                 @ rev (map (\<lambda>g. join_sp (noblank g)) (groups_from line c (backPointer line c))))"
      using b less.prems by (intro less.IH) simp_all
    finally show ?thesis using False by (simp add: groups_from.simps [of line prev c])
  qed
qed

lemma segment_Nil: "segment [] = Some []"
  by code_simp

lemma segment_groups:
  assumes "tokens \<noteq> []"
  shows "segment tokens =
           Some (map (\<lambda>g. join_sp (noblank g))
                  (groups_from ([] # tokens) (Suc (length tokens))
                     (backPointer ([] # tokens) (length tokens))))"
proof -
  let ?line = "[] # tokens"
  let ?n = "length ?line"
  have t: "dp_table ?line = (map (\<lambda>i. Fin (bestCost ?line i)) [0..<?n], map (bp ?line) [0..<?n])"
    by (rule dp_table_shape) simp
  have pos: "0 < length tokens" using assms by simp
  have l: "last (map (bp ?line) [0..<?n]) = int (backPointer ?line (length tokens))"
    using pos by (simp add: bp_def)
  have b: "backPointer ?line (length tokens) < ?n"
    using backPointer_less [OF pos, of ?line] by simp
  have w: "walk (map (bp ?line) [0..<?n]) ?line (int ?n) (int (backPointer ?line (length tokens))) [] =
        Some ([] @ rev (map (\<lambda>g. join_sp (noblank g))
                 (groups_from ?line ?n (backPointer ?line (length tokens)))))"
    using b by (intro walk_groups) simp_all
  show ?thesis
    unfolding segment_def Let_def t snd_conv l w by (simp add: rev_map)
qed

text \<open>
  What the code computes. With the sentinel prepended and \<open>n\<close> the number of tokens then,
  the tables hold, for every position \<open>j\<close> from 1 to \<open>n - 1\<close>, the best cost
  \<open>bestCost[j] = min over i < j of bestCost[i] + lineCost(tokens[i+1 : j]) + staticCost[j-1]\<close>,
  with \<open>bestCost[0] = 0\<close>, and as back pointer the lowest \<open>i\<close> that attains the minimum.
  The output is the walk from the last index \<open>n - 1\<close>, which takes \<^verbatim>\<open>line[cursor:prevcursor]\<close>
  with \<open>prevcursor\<close> starting at \<open>n\<close>; each slice has its blank tokens removed and is joined
  by single spaces, and the lines come out from left to right. The empty token list gives
  no line. The segmenter always returns.
\<close>

lemma segment_tables_and_walk:
  "segment [] = Some []
   \<and> (tokens \<noteq> [] \<longrightarrow>
     (let line = [] # tokens; n = length line in
        (\<forall>j<n. fst (dp_table line) ! j = Fin (bestCost line j))
      \<and> bestCost line 0 = 0
      \<and> snd (dp_table line) ! 0 = - 1
      \<and> (\<forall>j. 0 < j \<and> j < n \<longrightarrow>
             bestCost line j = Min (set (candidates line j)) + static_costs line ! (j - 1)
           \<and> snd (dp_table line) ! j = int (backPointer line j)
           \<and> backPointer line j < j
           \<and> candidates line j ! backPointer line j = Min (set (candidates line j))
           \<and> (\<forall>i < backPointer line j. Min (set (candidates line j)) < candidates line j ! i))
      \<and> segment tokens =
          Some (map (\<lambda>g. join_sp (noblank g))
                 (groups_from line n (backPointer line (n - 1))))))"
proof (intro conjI impI)
  show "segment [] = Some []" by (rule segment_Nil)
next
  assume ne: "tokens \<noteq> []"
  let ?line = "[] # tokens"
  let ?n = "length ?line"
  have t: "dp_table ?line = (map (\<lambda>i. Fin (bestCost ?line i)) [0..<?n], map (bp ?line) [0..<?n])"
    by (rule dp_table_shape) simp
  have a: "\<forall>j<?n. fst (dp_table ?line) ! j = Fin (bestCost ?line j)"
    unfolding t fst_conv by (simp del: upt_Suc)
  have b: "bestCost ?line 0 = 0" by (simp add: bestCost.simps [of ?line 0])
  have c: "snd (dp_table ?line) ! 0 = - 1"
    unfolding t snd_conv by (simp add: bp_def upt_conv_Cons del: upt_Suc)
  have d: "bestCost ?line j = Min (set (candidates ?line j)) + static_costs ?line ! (j - 1)
           \<and> snd (dp_table ?line) ! j = int (backPointer ?line j)
           \<and> backPointer ?line j < j
           \<and> candidates ?line j ! backPointer ?line j = Min (set (candidates ?line j))
           \<and> (\<forall>i < backPointer ?line j. Min (set (candidates ?line j)) < candidates ?line j ! i)"
    if j: "0 < j \<and> j < ?n" for j
  proof -
    have cne: "candidates ?line j \<noteq> []" using j candidates_length [of ?line j] by auto
    have 1: "bestCost ?line j = Min (set (candidates ?line j)) + static_costs ?line ! (j - 1)"
      using j by (simp add: bestCost_candidates)
    have 2: "snd (dp_table ?line) ! j = int (backPointer ?line j)"
      unfolding t snd_conv using j by (simp add: bp_def del: upt_Suc)
    have 3: "backPointer ?line j < j" using j by (simp add: backPointer_less)
    have 4: "candidates ?line j ! backPointer ?line j = Min (set (candidates ?line j))"
      unfolding backPointer_def using cne by (rule first_min_nth)
    have 5: "\<forall>i < backPointer ?line j. Min (set (candidates ?line j)) < candidates ?line j ! i"
      unfolding backPointer_def using first_min_first by blast
    from 1 2 3 4 5 show ?thesis by blast
  qed
  have e: "segment tokens =
          Some (map (\<lambda>g. join_sp (noblank g))
                 (groups_from ?line ?n (backPointer ?line (?n - 1))))"
    using segment_groups [OF ne] by simp
  show "let line = [] # tokens; n = length line in
        (\<forall>j<n. fst (dp_table line) ! j = Fin (bestCost line j))
      \<and> bestCost line 0 = 0
      \<and> snd (dp_table line) ! 0 = - 1
      \<and> (\<forall>j. 0 < j \<and> j < n \<longrightarrow>
             bestCost line j = Min (set (candidates line j)) + static_costs line ! (j - 1)
           \<and> snd (dp_table line) ! j = int (backPointer line j)
           \<and> backPointer line j < j
           \<and> candidates line j ! backPointer line j = Min (set (candidates line j))
           \<and> (\<forall>i < backPointer line j. Min (set (candidates line j)) < candidates line j ! i))
      \<and> segment tokens =
          Some (map (\<lambda>g. join_sp (noblank g))
                 (groups_from line n (backPointer line (n - 1))))"
    unfolding Let_def using a b c d e by blast
qed

lemma ex_seg_ab: "segment [''a'', ''b''] = Some [''a b'']"
  by code_simp

lemma ex70_sc: "static_costs [[], seventy_a, seventy_b] = [0, 0, 0]"
  by code_simp

lemma ex70_lc:
  "line_cost [] = 120"
  "line_cost [seventy_a] = 50"
  "line_cost [seventy_b] = 50"
  "line_cost [seventy_a, seventy_b] = 206"
  by code_simp+

lemma upt_small:
  "[0..<2] = [0, 1]"
  "[0..<3] = [0, 1, 2]"
  by code_simp+

lemma ex70_bc0: "bestCost [[], seventy_a, seventy_b] 0 = 0"
  by (simp add: bestCost.simps [of _ 0])

lemma ex70_c1: "candidates [[], seventy_a, seventy_b] (Suc 0) = [120]"
  by (simp add: candidates_def ex70_bc0 slice_def ex70_lc)

lemma ex70_bc1: "bestCost [[], seventy_a, seventy_b] (Suc 0) = 120"
  by (simp add: bestCost_candidates ex70_c1 ex70_sc)

lemma ex70_c2: "candidates [[], seventy_a, seventy_b] 2 = [50, 240]"
  by (simp add: candidates_def ex70_bc0 ex70_bc1 slice_def ex70_lc upt_small)

lemma ex70_bc2: "bestCost [[], seventy_a, seventy_b] 2 = 50"
  by (simp add: bestCost_candidates ex70_c2 ex70_sc)

lemma ex70_c3: "candidates [[], seventy_a, seventy_b] 3 = [206, 170, 170]"
  by (simp add: candidates_def ex70_bc0 ex70_bc1 ex70_bc2 slice_def ex70_lc upt_small)

lemma ex70_bp:
  "backPointer [[], seventy_a, seventy_b] (Suc 0) = 0"
  "backPointer [[], seventy_a, seventy_b] 2 = 0"
  "backPointer [[], seventy_a, seventy_b] 3 = Suc 0"
  by (simp_all add: backPointer_def ex70_c1 ex70_c2 ex70_c3 first_min_def)

lemma ex70_ne: "seventy_a \<noteq> []" "seventy_b \<noteq> []"
  by (simp_all add: seventy_a_def seventy_b_def)

lemma ex70_spec2: "segment_spec 2 [seventy_a, seventy_b] = [seventy_a]"
  by (simp add: segment_spec_def spec_groups.simps [of _ 2] spec_groups.simps [of _ 0]
      ex70_bp slice_def noblank_def ex70_ne)

lemma ex70_spec3: "segment_spec 3 [seventy_a, seventy_b] = [[], seventy_b]"
  by (simp add: segment_spec_def spec_groups.simps [of _ 3] spec_groups.simps [of _ "Suc 0"]
      spec_groups.simps [of _ 0] ex70_bp slice_def noblank_def ex70_ne)

lemma ex70_seg: "segment [seventy_a, seventy_b] = Some [seventy_a @ '' '' @ seventy_b]"
  by code_simp

lemma ex70_table: "snd (dp_table [[], seventy_a, seventy_b]) = [- 1, 0, 0]"
  by code_simp

lemma ex70_slice:
  "slice 1 2 [[], seventy_a, seventy_b] = [seventy_a]"
  "slice 0 3 [[], seventy_a, seventy_b] = [[], seventy_a, seventy_b]"
  by (simp_all add: slice_def)

text \<open>
  C1 does not hold of the code. On two tokens of 70 characters the tables are as the claim
  has them: the back pointer of the last position 2 is 0, taken for the candidate line
  \<^verbatim>\<open>tokens[1:2]\<close>, the first token alone, at the cost 50. The claim's segments
  \<^verbatim>\<open>tokens[backPointer[j]+1 : j]\<close> are then the first token alone when the walk starts at
  the last position 2, and an empty line and the second token when it starts at 3. The
  code yields neither: its walk takes \<^verbatim>\<open>line[0:3]\<close> and the one line it gives has both
  tokens, 141 characters, a line whose cost of 206 the recurrence never looked at.
\<close>

theorem emitted_line_is_not_the_costed_line:
  "snd (dp_table [[], seventy_a, seventy_b]) = [- 1, 0, 0]
   \<and> backPointer [[], seventy_a, seventy_b] 2 = 0
   \<and> candidates [[], seventy_a, seventy_b] 2 = [50, 240]
   \<and> slice 1 2 [[], seventy_a, seventy_b] = [seventy_a]
   \<and> line_cost [seventy_a] = 50
   \<and> segment_spec 2 [seventy_a, seventy_b] = [seventy_a]
   \<and> segment_spec 3 [seventy_a, seventy_b] = [[], seventy_b]
   \<and> segment [seventy_a, seventy_b] = Some [seventy_a @ '' '' @ seventy_b]
   \<and> segment [seventy_a, seventy_b] \<noteq> Some (segment_spec 2 [seventy_a, seventy_b])
   \<and> segment [seventy_a, seventy_b] \<noteq> Some (segment_spec 3 [seventy_a, seventy_b])
   \<and> noblank (slice 0 3 [[], seventy_a, seventy_b]) = [seventy_a, seventy_b]
   \<and> line_cost [seventy_a, seventy_b] = 206
   \<and> length (seventy_a @ '' '' @ seventy_b) = 141"
proof -
  have 1: "segment [seventy_a, seventy_b] \<noteq> Some (segment_spec 2 [seventy_a, seventy_b])"
    unfolding ex70_seg ex70_spec2 by (simp add: ex70_ne)
  have 2: "segment [seventy_a, seventy_b] \<noteq> Some (segment_spec 3 [seventy_a, seventy_b])"
    unfolding ex70_seg ex70_spec3 by simp
  have 3: "noblank (slice 0 3 [[], seventy_a, seventy_b]) = [seventy_a, seventy_b]"
    by (simp add: ex70_slice noblank_def ex70_ne)
  have 4: "length (seventy_a @ '' '' @ seventy_b) = 141"
    by (simp add: seventy_a_def seventy_b_def)
  from 1 2 3 4 ex70_table ex70_bp(2) ex70_c2 ex70_slice(1) ex70_lc(2,4) ex70_spec2 ex70_spec3 ex70_seg
  show ?thesis by blast
qed

subsection \<open>Token preservation\<close>

lemma groups_from_concat:
  "cur \<le> prev \<Longrightarrow> concat (groups_from line prev cur) = take prev line"
proof (induction cur arbitrary: prev rule: less_induct)
  case (less cur)
  show ?case
  proof (cases "cur = 0")
    case True
    then show ?thesis by (simp add: groups_from.simps [of line prev 0] slice_def)
  next
    case False
    then have b: "backPointer line cur < cur" by (simp add: backPointer_less)
    then have "concat (groups_from line cur (backPointer line cur)) = take cur line"
      by (intro less.IH) simp_all
    moreover have "take cur line @ slice cur prev line = take prev line"
      using less.prems take_add [of cur "prev - cur" line] by (simp add: slice_def)
    ultimately show ?thesis using False by (simp add: groups_from.simps [of line prev cur])
  qed
qed

lemma noblank_concat: "concat (map noblank gs) = noblank (concat gs)"
  by (induction gs) (simp_all add: noblank_def)

lemma segment_groups_concat:
  "\<exists>groups. segment tokens = Some (map join_sp groups) \<and> concat groups = noblank tokens"
proof (cases "tokens = []")
  case True
  have "segment tokens = Some (map join_sp []) \<and> concat [] = noblank tokens"
    using True by (simp add: segment_Nil noblank_def)
  then show ?thesis by blast
next
  case False
  let ?line = "[] # tokens"
  let ?gs = "groups_from ?line (Suc (length tokens)) (backPointer ?line (length tokens))"
  have pos: "0 < length tokens" using False by simp
  have "backPointer ?line (length tokens) \<le> Suc (length tokens)"
    using backPointer_less [OF pos, of ?line] by simp
  then have "concat ?gs = ?line" using groups_from_concat [of _ "Suc (length tokens)" ?line] by simp
  then have "concat (map noblank ?gs) = noblank tokens"
    by (simp add: noblank_concat) (simp add: noblank_def)
  moreover have "segment tokens = Some (map join_sp (map noblank ?gs))"
    using segment_groups [OF False] by (simp add: comp_def)
  ultimately show ?thesis by blast
qed

lemma split_at_append:
  "c \<notin> set u \<Longrightarrow> split_at c w (u @ xs) = split_at c (w @ u) xs"
  by (induction u arbitrary: w) auto

lemma split_at_join:
  "\<forall>t \<in> set g. CHR '' '' \<notin> set t \<Longrightarrow> g \<noteq> [] \<Longrightarrow>
   split_at (CHR '' '') w (join_sp g) = (w @ hd g) # tl g"
proof (induction g arbitrary: w rule: join_sp.induct)
  case 1
  then show ?case by simp
next
  case (2 x)
  then show ?case using split_at_append [of "CHR '' ''" x w "[]"] by simp
next
  case (3 x y ys)
  have "split_at (CHR '' '') w (x @ CHR '' '' # join_sp (y # ys)) =
        split_at (CHR '' '') (w @ x) (CHR '' '' # join_sp (y # ys))"
    using 3(2) by (intro split_at_append) simp
  also have "\<dots> = (w @ x) # split_at (CHR '' '') [] (join_sp (y # ys))" by simp
  also have "split_at (CHR '' '') [] (join_sp (y # ys)) = ([] @ hd (y # ys)) # tl (y # ys)"
    using 3(2) by (intro 3(1)) simp_all
  finally show ?case by simp
qed

lemma noblank_split_join:
  "\<forall>t \<in> set g. CHR '' '' \<notin> set t \<Longrightarrow> noblank (split_spaces (join_sp g)) = noblank g"
proof (cases g)
  case Nil
  then show ?thesis by (simp add: split_spaces_def noblank_def)
next
  case (Cons a list)
  assume "\<forall>t \<in> set g. CHR '' '' \<notin> set t"
  then show ?thesis using split_at_join [of g "[]"] Cons by (simp add: split_spaces_def)
qed

lemma noblank_append: "noblank (xs @ ys) = noblank xs @ noblank ys"
  by (simp add: noblank_def)

lemma noblank_split_lines:
  "\<forall>gr \<in> set groups. \<forall>t \<in> set gr. CHR '' '' \<notin> set t \<Longrightarrow>
   noblank (concat (map split_spaces (map join_sp groups))) = noblank (concat groups)"
  by (induction groups) (simp_all add: noblank_append noblank_split_join)

text \<open>
  C3, as amended. The output lines of a span are the joins by single spaces of
  consecutive groups of the span's non-blank tokens: the groups, put together in order,
  are the non-blank tokens of the input, nothing dropped, repeated or reordered. When no
  token has a space in it (every span that has not taken in a comment line), the
  non-blank tokens obtained by splitting the output lines on spaces are the non-blank
  tokens of the input.
\<close>

theorem tokens_preserved:
  "(\<exists>groups. segment tokens = Some (map join_sp groups) \<and> concat groups = noblank tokens)
   \<and> ((\<forall>t \<in> set tokens. CHR '' '' \<notin> set t) \<longrightarrow>
        (\<exists>out. segment tokens = Some out
               \<and> noblank (concat (map split_spaces out)) = noblank tokens))"
proof (intro conjI impI)
  show "\<exists>groups. segment tokens = Some (map join_sp groups) \<and> concat groups = noblank tokens"
    by (rule segment_groups_concat)
next
  assume sf: "\<forall>t \<in> set tokens. CHR '' '' \<notin> set t"
  obtain groups where g: "segment tokens = Some (map join_sp groups)"
      and c: "concat groups = noblank tokens"
    using segment_groups_concat by blast
  have "set (concat groups) \<subseteq> set tokens" unfolding c by (auto simp: noblank_def)
  then have each: "\<forall>gr \<in> set groups. \<forall>t \<in> set gr. CHR '' '' \<notin> set t"
    using sf by auto
  have "noblank (concat (map split_spaces (map join_sp groups))) = noblank (concat groups)"
    using each by (rule noblank_split_lines)
  also have "\<dots> = noblank tokens" unfolding c by (simp add: noblank_def)
  finally show "\<exists>out. segment tokens = Some out
               \<and> noblank (concat (map split_spaces out)) = noblank tokens"
    using g by blast
qed

lemma ex_seg_hello: "segment [''hello'', ''%a b''] = Some [''hello %a b'']"
  by code_simp

theorem tokens_preserved_witness:
  "CHR '' '' \<notin> set ''a'' \<and> CHR '' '' \<notin> set ''b''
   \<and> segment [''a'', ''b''] = Some [''a b'']
   \<and> noblank (concat (map split_spaces [''a b''])) = noblank [''a'', ''b'']"
proof -
  have a: "CHR '' '' \<notin> set ''a''" "CHR '' '' \<notin> set ''b''" by simp_all
  then have "\<forall>t \<in> set [''a'', ''b'']. CHR '' '' \<notin> set t" by simp
  with tokens_preserved [of "[''a'', ''b'']"]
  obtain out where "segment [''a'', ''b''] = Some out"
      and "noblank (concat (map split_spaces out)) = noblank [''a'', ''b'']"
    by blast
  then have "noblank (concat (map split_spaces [''a b''])) = noblank [''a'', ''b'']"
    unfolding ex_seg_ab by simp
  with a ex_seg_ab show ?thesis by blast
qed

lemma ex_joined_hello:
  "join_spans (map tokenize (paragraphs [''hello'' @ [newline], ''%a b'' @ [newline]] True)) =
     [\<lparr>content = [''hello'', ''%a b''], segment_flag = True, join_left = Allow, join_right = Allow\<rparr>,
      \<lparr>content = [], segment_flag = True, join_left = Allow, join_right = Allow\<rparr>]"
  by code_simp

lemma ex_split_hello:
  "noblank (concat (map split_spaces [''hello %a b''])) = [''hello'', ''%a'', ''b'']"
  by code_simp

text \<open>
  C3 as stated fails on a span that has taken in a comment line: the comment is one token
  with a space in it, so splitting the output line on spaces gives three tokens where the
  span has two.
\<close>

theorem comment_token_split_counterexample:
  "join_spans (map tokenize (paragraphs [''hello'' @ [newline], ''%a b'' @ [newline]] True)) =
     [\<lparr>content = [''hello'', ''%a b''], segment_flag = True, join_left = Allow, join_right = Allow\<rparr>,
      \<lparr>content = [], segment_flag = True, join_left = Allow, join_right = Allow\<rparr>]
   \<and> segment [''hello'', ''%a b''] = Some [''hello %a b'']
   \<and> noblank (concat (map split_spaces [''hello %a b''])) \<noteq> noblank [''hello'', ''%a b'']"
proof -
  have "noblank (concat (map split_spaces [''hello %a b''])) \<noteq> noblank [''hello'', ''%a b'']"
    unfolding ex_split_hello by (simp add: noblank_def)
  with ex_joined_hello ex_seg_hello show ?thesis by blast
qed

subsection \<open>The hard limit\<close>

lemma ex_seg_nested:
  "segment [nested_open, '')]}'', ''z''] = Some [nested_open @ '' )]} z'']"
  by code_simp

lemma ex_sc_nested: "static_costs [[], nested_open, '')]}'', ''z''] = [0, 240, 0, 0]"
  by code_simp

text \<open>
  The limit is a cost of 105 on a candidate line, weighed against the other costs. The
  tokens below can be set on two lines of 117 and 5 characters, but breaking after the
  first costs 240 (three delimiters close in the next token), and the segmenter yields
  one line of 123 characters.
\<close>

lemma delimiters_outweigh_limit_example:
  "concat [[nested_open], ['')]}'', ''z'']] = [nested_open, '')]}'', ''z'']
   \<and> int (length (join_sp [nested_open])) \<le> CHARS_MAX
   \<and> int (length (join_sp ['')]}'', ''z''])) \<le> CHARS_MAX
   \<and> segment [nested_open, '')]}'', ''z''] = Some [nested_open @ '' )]} z'']
   \<and> int (length (nested_open @ '' )]} z'')) > CHARS_MAX
   \<and> static_costs [[], nested_open, '')]}'', ''z''] = [0, 240, 0, 0]"
proof -
  have "int (length (join_sp [nested_open])) \<le> CHARS_MAX"
    "int (length (join_sp ['')]}'', ''z''])) \<le> CHARS_MAX"
    "int (length (nested_open @ '' )]} z'')) > CHARS_MAX"
    by (simp_all add: nested_open_def CHARS_MAX_def)
  with ex_seg_nested ex_sc_nested show ?thesis by simp
qed

lemma ex25_seg: "segment words25 = Some [join_sp words25]"
  by code_simp

lemma ex25_reflow: "reflow [join_sp words25 @ [newline]] = Some [join_sp words25 @ [newline]]"
  by code_simp

lemma ex25_sc: "static_costs ([] # words25) = replicate 26 0"
  by code_simp

lemma ex25_len:
  "length (join_sp words25) = 124"
  "length (join_sp (take 13 words25)) = 64"
  "length (join_sp (drop 13 words25)) = 59"
  "length (join_sp (take 24 words25)) = 119"
  by code_simp+

lemma ex25_lc:
  "line_cost words25 = 189"
  "line_cost (take 13 words25) = 56"
  "line_cost (drop 13 words25) = 61"
  "line_cost (take 24 words25) = 84"
  by code_simp+

lemma ex25_table:
  "last (snd (dp_table ([] # words25))) = 0"
  "slice 1 25 ([] # words25) = take 24 words25"
  by code_simp+

text \<open>
  C2 does not hold of the code. A span of 25 words of four letters has no static cost
  at any token and can be set on two lines of 13 and 12 words, 64 and 59 characters,
  which the cost function prefers (56 + 61 against 189 for the whole). The segmenter
  yields the whole span as one line of 124 characters, above the hard limit of 120: the
  recurrence takes the back pointer 0 at the last position for the cost 84 of the first
  24 words, and the walk adds the last word to that line. The pipeline gives the same
  line for the span as one input line.
\<close>

theorem hard_limit_exceeded_on_plain_words:
  "segment words25 = Some [join_sp words25]
   \<and> reflow [join_sp words25 @ [newline]] = Some [join_sp words25 @ [newline]]
   \<and> int (length (join_sp words25)) > CHARS_MAX
   \<and> words25 = take 13 words25 @ drop 13 words25
   \<and> int (length (join_sp (take 13 words25))) \<le> CHARS_MAX
   \<and> int (length (join_sp (drop 13 words25))) \<le> CHARS_MAX
   \<and> static_costs ([] # words25) = replicate 26 0
   \<and> line_cost (take 13 words25) + line_cost (drop 13 words25) < line_cost words25
   \<and> last (snd (dp_table ([] # words25))) = 0
   \<and> slice 1 25 ([] # words25) = take 24 words25
   \<and> line_cost (take 24 words25) = 84
   \<and> length (join_sp (take 24 words25)) = 119"
proof -
  have 1: "int (length (join_sp words25)) > CHARS_MAX"
    "int (length (join_sp (take 13 words25))) \<le> CHARS_MAX"
    "int (length (join_sp (drop 13 words25))) \<le> CHARS_MAX"
    by (simp_all add: ex25_len CHARS_MAX_def)
  have 2: "words25 = take 13 words25 @ drop 13 words25" by simp
  have 3: "line_cost (take 13 words25) + line_cost (drop 13 words25) < line_cost words25"
    by (simp add: ex25_lc)
  from 1 2 3 ex25_seg ex25_reflow ex25_sc ex25_table ex25_lc(4) ex25_len(4)
  show ?thesis by blast
qed

subsection \<open>Static costs: short delimited groups\<close>

lemma update_same: "xs ! j = v \<Longrightarrow> xs = xs[j := v]"
  by (metis list_update_id)

lemma delim_step_snd:
  "snd (delim_step i token (j, d) st) = (snd st)[j := step_open d token i (snd st ! j)]"
proof (cases "j < length (snd st)")
  case True
  then show ?thesis
    by (cases st; cases d)
       (auto simp: delim_step_def step_open_def opens_def closes_def Let_def
             split: option.splits intro: update_same)
next
  case False
  then show ?thesis
    by (cases st; cases d)
       (auto simp: delim_step_def Let_def list_update_beyond not_less split: option.splits)
qed

lemma delim_step_fst_length: "length (fst (delim_step i token jd st)) = length (fst st)"
  by (cases st; cases jd)
     (auto simp: delim_step_def Let_def add_range_def split: option.splits prod.splits)

lemma fold_delim_snd:
  "snd (fold (delim_step i token) ds st) =
     fold (\<lambda>jd od. od[fst jd := step_open (snd jd) token i (od ! fst jd)]) ds (snd st)"
proof (induction ds arbitrary: st)
  case Nil
  then show ?case by simp
next
  case (Cons jd ds)
  show ?case using Cons.IH [of "delim_step i token jd st"] delim_step_snd [of i token "fst jd" "snd jd" st]
    by simp
qed

lemma fold_update_enumerate:
  "n + length D \<le> length od \<Longrightarrow>
   fold (\<lambda>jd od. od[fst jd := f (snd jd) (od ! fst jd)]) (enumerate n D) od ! j =
     (if n \<le> j \<and> j < n + length D then f (D ! (j - n)) (od ! j) else od ! j)"
proof (induction D arbitrary: n od)
  case Nil
  then show ?case by auto
next
  case (Cons d D)
  let ?od = "od[n := f d (od ! n)]"
  have "Suc n + length D \<le> length ?od" using Cons.prems by simp
  from Cons.IH [OF this, of ] Cons.prems show ?case
    by (auto simp: nth_list_update nth_Cons')
qed

lemma fold_update_length:
  "length (fold (\<lambda>jd od. od[fst jd := g jd od]) ds od) = length od"
  by (induction ds arbitrary: od) simp_all

lemma fold_delim_fst_length: "length (fst (fold (delim_step i token) ds st)) = length (fst st)"
  by (induction ds arbitrary: st) (simp_all add: delim_step_fst_length)

lemma lexical_step_length: "length (lexical_step i token costs) = length costs"
  by (simp add: lexical_step_def Let_def)

lemma token_step_lengths:
  "length (fst (token_step it st)) = length (fst st)"
  "length (snd (token_step it st)) = length (snd st)"
  by (cases it; simp add: token_step_def fold_delim_fst_length lexical_step_length
        fold_delim_snd fold_update_length)+

lemma static_state_lengths:
  "length (fst (static_state line i)) = length line"
  "length (snd (static_state line i)) = length DELIMS"
proof -
  have "length (fst (fold token_step xs st)) = length (fst st)
        \<and> length (snd (fold token_step xs st)) = length (snd st)" for xs st
    by (induction xs arbitrary: st) (simp_all add: token_step_lengths)
  then show "length (fst (static_state line i)) = length line"
    "length (snd (static_state line i)) = length DELIMS"
    by (simp_all add: static_state_def static_init_def)
qed

lemma markers_nonempty: "d \<in> set DELIMS \<Longrightarrow> \<not> opens d [] \<and> \<not> closes d []"
  by (auto simp: DELIMS_def opens_def closes_def)

lemma static_state_Suc:
  "i < length line \<Longrightarrow> static_state line (Suc i) = token_step (i, line ! i) (static_state line i)"
  by (simp add: static_state_def take_Suc_conv_app_nth nth_enumerate_eq)

lemma delim_state_Suc:
  "j < length DELIMS \<Longrightarrow>
   delim_state line i (Suc j) = delim_step i (line ! i) (j, DELIMS ! j) (delim_state line i j)"
  by (simp add: delim_state_def take_Suc_conv_app_nth nth_enumerate_eq)

lemma delim_state_all:
  "line ! i \<noteq> [] \<Longrightarrow> i < length line \<Longrightarrow>
   static_state line (Suc i) = delim_state line i (length DELIMS)"
  by (simp add: static_state_Suc token_step_def delim_state_def)

lemma take_enumerate: "take k (enumerate n xs) = enumerate n (take k xs)"
proof (induction xs arbitrary: n k)
  case Nil
  then show ?case by simp
next
  case (Cons x xs)
  then show ?case by (cases k) simp_all
qed

lemma delim_state_open:
  assumes "j < length DELIMS"
  shows "snd (delim_state line i j') ! j =
           (if j < j' then step_open (DELIMS ! j) (line ! i) i (snd (static_state line i) ! j)
            else snd (static_state line i) ! j)"
proof -
  have e: "take j' (enumerate 0 DELIMS) = enumerate 0 (take j' DELIMS)"
    by (rule take_enumerate)
  have l: "0 + length (take j' DELIMS) \<le> length (snd (static_state line i))"
    by (simp add: static_state_lengths)
  show ?thesis
    unfolding delim_state_def fold_delim_snd e snd_conv
    using fold_update_enumerate [OF l, of "\<lambda>d. step_open d (line ! i) i" j] assms
    by auto
qed

lemma static_state_open:
  "i \<le> length line \<Longrightarrow> j < length DELIMS \<Longrightarrow>
   snd (static_state line i) ! j = open_upto (DELIMS ! j) line i"
proof (induction i)
  case 0
  then show ?case by (simp add: static_state_def static_init_def)
next
  case (Suc i)
  then have il: "i < length line" and IH: "snd (static_state line i) ! j = open_upto (DELIMS ! j) line i"
    by simp_all
  have mem: "DELIMS ! j \<in> set DELIMS" using Suc.prems by simp
  show ?case
  proof (cases "line ! i = []")
    case True
    have "static_state line (Suc i) = static_state line i"
      using il True by (simp add: static_state_Suc token_step_def)
    moreover have "step_open (DELIMS ! j) (line ! i) i c = c" for c
      using markers_nonempty [OF mem] True by (simp add: step_open_def)
    ultimately show ?thesis using IH by simp
  next
    case False
    have "snd (static_state line (Suc i)) ! j = snd (delim_state line i (length DELIMS)) ! j"
      using delim_state_all [OF False il] by simp
    also have "\<dots> = step_open (DELIMS ! j) (line ! i) i (snd (static_state line i) ! j)"
      using delim_state_open [OF Suc.prems(2), of line i "length DELIMS"] Suc.prems(2) by simp
    finally show ?thesis using IH by simp
  qed
qed

lemma open_upto_open_at: "open_upto d line i = Some opened \<longleftrightarrow> open_at d line opened i"
proof (induction i arbitrary: opened)
  case 0
  then show ?case by (simp add: open_at_def)
next
  case (Suc i)
  have iv: "{opened<..<Suc i} = (if opened < i then insert i {opened<..<i} else {})" by auto
  consider (op) "opens d (line ! i)"
    | (cl) "\<not> opens d (line ! i)" "closes d (line ! i)"
    | (no) "\<not> opens d (line ! i)" "\<not> closes d (line ! i)"
    by blast
  then show ?case
  proof cases
    case op
    then show ?thesis by (auto simp: step_open_def open_at_def iv)
  next
    case cl
    then show ?thesis by (auto simp: step_open_def open_at_def iv less_Suc_eq)
  next
    case no
    then have "open_upto d line (Suc i) = open_upto d line i" by (simp add: step_open_def)
    moreover have "open_at d line opened (Suc i) = open_at d line opened i"
      using no by (auto simp: open_at_def iv less_Suc_eq)
    ultimately show ?thesis using Suc.IH by simp
  qed
qed


lemma add_range_nth:
  "k < length costs \<Longrightarrow>
   add_range a b v costs ! k = costs ! k + (if a \<le> k \<and> k < b then v else 0)"
  by (simp add: add_range_def nth_enumerate_eq)

lemma delim_state_fst_length: "length (fst (delim_state line i j)) = length line"
  by (simp add: delim_state_def fold_delim_fst_length lexical_step_length static_state_lengths)

lemma static_costs_state: "static_costs line = fst (static_state line (length line))"
  by (simp add: static_costs_def static_state_def)

text \<open>
  C7. Let the token at index \<open>i\<close> contain the closing marker of the pair \<open>j\<close>, let the
  pair be open at the earlier index \<open>opened\<close> (the last token that contains the opening
  and not the closing marker, with no closing token since), and let \<open>opened \<ge> i - 4\<close>.
  Then the loop has \<open>opened\<close> recorded for the pair when its pass at the token \<open>i\<close> starts,
  the pass adds 80 to the cost at every index from \<open>opened\<close> up to but excluding \<open>i\<close> and
  leaves the other costs as they are, and it clears the record of the pair.
\<close>

theorem short_delimiter_penalty:
  assumes "i < length line" and "j < length DELIMS"
    and "closes (DELIMS ! j) (line ! i)"
    and "open_at (DELIMS ! j) line opened i"
    and "int opened \<ge> int i - SHORT_DELIM"
  shows "snd (delim_state line i j) ! j = Some opened
     \<and> delim_state line i (Suc j) =
         (add_range opened i COST_SHORTDELIMITED (fst (delim_state line i j)),
          (snd (delim_state line i j))[j := None])
     \<and> (\<forall>k < length line.
           fst (delim_state line i (Suc j)) ! k =
             fst (delim_state line i j) ! k + (if opened \<le> k \<and> k < i then 80 else 0))
     \<and> snd (delim_state line i (Suc j)) ! j = None
     \<and> static_state line (Suc i) = delim_state line i (length DELIMS)
     \<and> static_costs line = fst (static_state line (length line))"
proof -
  let ?d = "DELIMS ! j"
  let ?st = "delim_state line i j"
  have mem: "?d \<in> set DELIMS" using assms(2) by simp
  have ne: "line ! i \<noteq> []" using markers_nonempty [OF mem] assms(3) by auto
  have "snd ?st ! j = snd (static_state line i) ! j"
    using delim_state_open [OF assms(2), of line i j] by simp
  also have "\<dots> = open_upto ?d line i"
    using assms(1,2) by (intro static_state_open) simp_all
  also have "\<dots> = Some opened" using assms(4) by (simp add: open_upto_open_at)
  finally have 1: "snd ?st ! j = Some opened" .
  have cl: "contains (snd ?d) (line ! i)" using assms(3) by (simp add: closes_def)
  obtain costs od where st: "?st = (costs, od)" by (cases ?st)
  obtain mo mc where d: "?d = (mo, mc)" by (cases ?d)
  have 2: "delim_state line i (Suc j) =
         (add_range opened i COST_SHORTDELIMITED (fst ?st), (snd ?st)[j := None])"
    unfolding delim_state_Suc [OF assms(2)]
    using 1 cl assms(5) by (simp add: st d delim_step_def)
  have len: "length (fst ?st) = length line" by (rule delim_state_fst_length)
  have 3: "\<forall>k < length line.
           fst (delim_state line i (Suc j)) ! k =
             fst ?st ! k + (if opened \<le> k \<and> k < i then 80 else 0)"
    unfolding 2 fst_conv using len by (simp add: add_range_nth COST_SHORTDELIMITED_def)
  have "j < length (snd ?st)"
    using assms(2) by (simp add: delim_state_def fold_delim_snd fold_update_length static_state_lengths)
  then have 4: "snd (delim_state line i (Suc j)) ! j = None" unfolding 2 by simp
  have 5: "static_state line (Suc i) = delim_state line i (length DELIMS)"
    using ne assms(1) by (rule delim_state_all)
  from 1 2 3 4 5 static_costs_state show ?thesis by blast
qed

lemma ex_delim_hyps:
  "closes (DELIMS ! 1) ([[], ''(a'', ''b)''] ! 2)"
  "open_at (DELIMS ! 1) [[], ''(a'', ''b)''] 1 2"
  by (simp_all add: closes_def open_at_def opens_def DELIMS_def)

lemma ex_delim_costs: "static_costs [[], ''(a'', ''b)''] = [0, 80, 0]"
  by code_simp

theorem short_delimiter_penalty_witness:
  "closes (DELIMS ! 1) ([[], ''(a'', ''b)''] ! 2)
   \<and> open_at (DELIMS ! 1) [[], ''(a'', ''b)''] 1 2
   \<and> snd (delim_state [[], ''(a'', ''b)''] 2 1) ! 1 = Some 1
   \<and> delim_state [[], ''(a'', ''b)''] 2 (Suc 1) =
         (add_range 1 2 COST_SHORTDELIMITED (fst (delim_state [[], ''(a'', ''b)''] 2 1)),
          (snd (delim_state [[], ''(a'', ''b)''] 2 1))[1 := None])
   \<and> static_costs [[], ''(a'', ''b)''] = [0, 80, 0]"
proof -
  have a: "(2::nat) < length [[], ''(a'', ''b)'']" by simp
  have b: "(1::nat) < length DELIMS" by (simp add: DELIMS_def)
  have c: "int 1 \<ge> int 2 - SHORT_DELIM" by (simp add: SHORT_DELIM_def)
  from short_delimiter_penalty [OF a b ex_delim_hyps c] ex_delim_hyps ex_delim_costs
  show ?thesis by blast
qed

subsection \<open>Exempt lines keep their place\<close>

lemma paragraphs_flush:
  "\<not> is_prose l \<Longrightarrow>
   paragraphs_loop h cur (l # post) =
     Span_parts cur True Allow Allow # exempt_span l # paragraphs_loop h [] post"
  by (auto simp: is_prose_def exempt_span_def Let_def)

lemma paragraphs_split:
  "\<not> is_prose l \<Longrightarrow>
   paragraphs_loop h cur (pre @ l # post) =
     paragraphs_loop h cur pre @ exempt_span l # paragraphs_loop h [] post"
proof (induction pre arbitrary: cur)
  case Nil
  then show ?case using paragraphs_flush [of l h cur post] by simp
next
  case (Cons x pre)
  show ?case using Cons.IH [OF Cons.prems] by (simp add: Let_def)
qed

lemma join_loop_Forbid:
  "join_right v = Forbid \<Longrightarrow> join_loop (Some v) spans = v # join_loop None spans"
  by (cases spans) simp_all

lemma join_loop_split:
  "join_left f \<noteq> Prefer \<Longrightarrow>
   join_loop previous (spans @ f # rest) = join_loop previous spans @ join_loop (Some f) rest"
proof (induction spans arbitrary: previous)
  case Nil
  then show ?case by (cases previous) simp_all
next
  case (Cons sp spans)
  then show ?case by (cases previous) simp_all
qed

lemma segment_total: "\<exists>out. segment tokens = Some out"
  using segment_groups_concat by blast

lemma segment_spans_total: "\<exists>out. segment_spans spans = Some out"
proof (induction spans)
  case Nil
  then show ?case by simp
next
  case (Cons sp spans)
  then obtain out where o: "segment_spans spans = Some out" by blast
  obtain segs where "segment (content sp) = Some segs" using segment_total by blast
  then show ?case using o by simp
qed

lemma segment_spans_append:
  "segment_spans xs = Some a \<Longrightarrow> segment_spans ys = Some b \<Longrightarrow>
   segment_spans (xs @ ys) = Some (a @ b)"
proof (induction xs arbitrary: a)
  case Nil
  then show ?case by simp
next
  case (Cons sp xs)
  obtain r where r: "segment_spans xs = Some r" using segment_spans_total by blast
  from Cons.IH [OF r Cons.prems(2)] r Cons.prems(1) show ?case
    by (auto split: option.splits)
qed

lemma reflow_total: "\<exists>out. reflow items = Some out"
  unfolding reflow_def by (rule segment_spans_total)




lemma join_sp_snoc: "ys \<noteq> [] \<Longrightarrow> join_sp (ys @ [c]) = join_sp ys @ CHR '' '' # c"
  by (induction ys rule: join_sp.induct) simp_all

lemma groups_from_last:
  "\<exists>front. groups_from line prev cur = front @ [slice cur prev line]"
  by (subst groups_from.simps) simp

lemma segment_last:
  assumes "c \<noteq> []"
  shows "\<exists>ls p. segment (tokens @ [c]) = Some (ls @ [p @ c]) \<and> (p = [] \<or> last p = CHR '' '')"
proof -
  let ?line = "[] # tokens @ [c]"
  let ?n = "Suc (length (tokens @ [c]))"
  let ?cur = "backPointer ?line (length (tokens @ [c]))"
  have seg: "segment (tokens @ [c]) =
      Some (map (\<lambda>g. join_sp (noblank g)) (groups_from ?line ?n ?cur))"
    by (rule segment_groups) simp
  obtain front where fr: "groups_from ?line ?n ?cur = front @ [slice ?cur ?n ?line]"
    using groups_from_last by blast
  have "?cur < length (tokens @ [c])" by (intro backPointer_less) simp
  then have cur: "?cur \<le> length tokens" by simp
  have "slice ?cur ?n ?line = drop ?cur ?line" by (simp add: slice_def)
  also have "\<dots> = drop ?cur ([] # tokens) @ [c]"
    using cur drop_append [of ?cur "[] # tokens" "[c]"] by simp
  finally have sl: "slice ?cur ?n ?line = drop ?cur ([] # tokens) @ [c]" .
  let ?ys = "noblank (drop ?cur ([] # tokens))"
  have nb: "noblank (slice ?cur ?n ?line) = ?ys @ [c]"
    unfolding sl using assms by (simp add: noblank_def)
  define p where "p = (if ?ys = [] then [] else join_sp ?ys @ '' '')"
  have jl: "join_sp (noblank (slice ?cur ?n ?line)) = p @ c"
    unfolding nb p_def by (simp add: join_sp_snoc)
  have pl: "p = [] \<or> last p = CHR '' ''" by (simp add: p_def)
  have "map (\<lambda>g. join_sp (noblank g)) (front @ [slice ?cur ?n ?line]) =
          map (\<lambda>g. join_sp (noblank g)) front @ [p @ c]"
    by (simp only: map_append list.map jl)
  then have "segment (tokens @ [c]) =
      Some (map (\<lambda>g. join_sp (noblank g)) front @ [p @ c])"
    unfolding seg fr by (simp only:)
  with pl show ?thesis by blast
qed

lemma tokenize_exempt:
  "tokenize (Span_str c False jl jr) =
     \<lparr>content = [c], segment_flag = False, join_left = jl, join_right = jr\<rparr>"
  by (simp add: tokenize_def Span_str_def)

lemma reflow_split_forbid:
  assumes np: "\<not> is_prose l" and v: "exempt_span l = Span_str c False jl Forbid" and jl: "jl \<noteq> Prefer"
  shows "\<exists>a b. reflow pre = Some a \<and> reflow post = Some b
           \<and> reflow (pre @ l # post) = Some (a @ (c @ [newline]) # b)"
proof -
  obtain a where a: "reflow pre = Some a" using reflow_total by blast
  obtain b where b: "reflow post = Some b" using reflow_total by blast
  let ?A = "map tokenize (paragraphs_loop True [] pre)"
  let ?B = "map tokenize (paragraphs_loop True [] post)"
  let ?v = "\<lparr>content = [c], segment_flag = False, join_left = jl, join_right = Forbid\<rparr>"
  have "map tokenize (paragraphs (pre @ l # post) True) = ?A @ ?v # ?B"
    by (simp add: paragraphs_def paragraphs_split [OF np] v tokenize_exempt)
  then have "join_spans (map tokenize (paragraphs (pre @ l # post) True)) =
          join_loop None ?A @ ?v # join_loop None ?B"
    using jl by (simp add: join_spans_def join_loop_split join_loop_Forbid)
  moreover have "segment_spans (join_loop None ?A) = Some a"
    using a by (simp add: reflow_def join_spans_def paragraphs_def)
  moreover have "segment_spans (?v # join_loop None ?B) = Some ((c @ [newline]) # b)"
    using b by (simp add: reflow_def join_spans_def paragraphs_def)
  ultimately have "reflow (pre @ l # post) = Some (a @ (c @ [newline]) # b)"
    by (simp add: reflow_def segment_spans_append)
  with a b show ?thesis by blast
qed


lemma reflow_Nil: "reflow [] = Some []"
  by code_simp




lemma ex_exempt_comment:
  "reflow ([''hello'' @ [newline]] @ (''%c '' @ [newline]) # [''bye'' @ [newline]])
     = Some [''hello %c'' @ [newline], ''bye'' @ [newline]]"
  by code_simp




subsection \<open>A second run of the pipeline\<close>

lemma paragraphs_plain:
  "\<forall>l \<in> set items. plain_prose l \<Longrightarrow>
   paragraphs_loop True cur items =
     [Span_parts (cur @ concat (map prose_part items)) True Allow Allow]"
proof (induction items arbitrary: cur)
  case Nil
  then show ?case by simp
next
  case (Cons l items)
  then have p: "plain_prose l" and rest: "\<forall>l \<in> set items. plain_prose l" by simp_all
  from p have c: "\<not> re_startspace l" "strip l \<noteq> []" "\<not> re_comment (strip l)"
      "\<not> re_singlecommand (strip l)"
      "\<not> re_endbreak (if last (strip l) = CHR ''-'' then butlast (strip l) else strip l)"
    by (simp_all add: plain_prose_def is_prose_def prose_part_def Let_def)
  show ?case
    using c Cons.IH [OF rest] by (simp add: Let_def prose_part_def)
qed

lemma reflow_plain:
  assumes "\<forall>l \<in> set items. plain_prose l"
  shows "reflow items =
           map_option (map (\<lambda>seg. seg @ [newline]))
             (segment (split (strip (concat (concat (map prose_part items))))))"
proof -
  obtain out where o: "segment (split (strip (concat (concat (map prose_part items))))) = Some out"
    using segment_total by blast
  show ?thesis
    using paragraphs_plain [OF assms, of "[]"] o
    by (simp add: reflow_def paragraphs_def join_spans_def tokenize_def Span_parts_def)
qed

lemma split_from_nonspace:
  "\<forall>c \<in> set u. \<not> is_space c \<Longrightarrow> split_from w (u @ xs) = split_from (w @ u) xs"
  by (induction u arbitrary: w) simp_all

lemma is_space_blank: "is_space (CHR '' '')" "is_space newline"
  by (simp_all add: is_space_def newline_def)

lemma split_from_token:
  "ok_token t \<Longrightarrow> split_from [] (t @ CHR '' '' # xs) = t # split_from [] xs"
  using split_from_nonspace [of t "[]" "CHR '' '' # xs"]
  by (simp add: ok_token_def is_space_blank)

lemma split_from_join:
  "\<forall>t \<in> set g. ok_token t \<Longrightarrow>
   split_from [] (join_sp g @ CHR '' '' # xs) = g @ split_from [] xs"
proof (induction g rule: join_sp.induct)
  case 1
  then show ?case by (simp add: is_space_blank)
next
  case (2 x)
  then show ?case by (simp add: split_from_token)
next
  case (3 x y ys)
  then have "split_from [] (x @ CHR '' '' # (join_sp (y # ys) @ CHR '' '' # xs)) =
             x # split_from [] (join_sp (y # ys) @ CHR '' '' # xs)"
    by (intro split_from_token) simp
  then show ?case using 3 by simp
qed

lemma split_lines:
  "\<forall>g \<in> set groups. \<forall>t \<in> set g. ok_token t \<Longrightarrow>
   split (concat (map (\<lambda>g. join_sp g @ '' '') groups)) = concat groups"
  unfolding split_def
  by (induction groups) (simp_all add: split_from_join)

lemma split_from_ok:
  "t \<in> set (split_from w s) \<Longrightarrow> \<forall>c \<in> set w. \<not> is_space c \<Longrightarrow> ok_token t"
proof (induction s arbitrary: w)
  case Nil
  then show ?case by (auto simp: ok_token_def split: if_splits)
next
  case (Cons c s)
  show ?case
  proof (cases "is_space c")
    case True
    then show ?thesis using Cons.prems Cons.IH [of "[]"]
      by (auto simp: ok_token_def split: if_splits)
  next
    case False
    then show ?thesis using Cons.prems Cons.IH [of "w @ [c]"] by auto
  qed
qed

lemma split_ok: "t \<in> set (split s) \<Longrightarrow> ok_token t"
  unfolding split_def using split_from_ok [of t "[]" s] by simp

lemma split_from_spaces:
  "\<forall>c \<in> set b. is_space c \<Longrightarrow> split_from w b = (if w = [] then [] else [w])"
  by (induction b arbitrary: w) simp_all

lemma split_from_trailing:
  "\<forall>c \<in> set b. is_space c \<Longrightarrow> split_from w (a @ b) = split_from w a"
proof (induction a arbitrary: w)
  case Nil
  then show ?case by (simp add: split_from_spaces)
next
  case (Cons c a)
  then show ?case by simp
qed

lemma split_from_leading: "split_from [] (dropWhile is_space s) = split_from [] s"
  by (induction s) simp_all

lemma split_strip: "split (strip s) = split s"
proof -
  let ?d = "dropWhile is_space s"
  have "?d = rev (dropWhile is_space (rev ?d)) @ rev (takeWhile is_space (rev ?d))"
    by (metis rev_append rev_rev_ident takeWhile_dropWhile_id)
  moreover have "\<forall>c \<in> set (rev (takeWhile is_space (rev ?d))). is_space c"
    by (auto dest: set_takeWhileD)
  ultimately have "split_from [] (rev (dropWhile is_space (rev ?d))) = split_from [] ?d"
    using split_from_trailing [of "rev (takeWhile is_space (rev ?d))" "[]"
        "rev (dropWhile is_space (rev ?d))"] by simp
  then show ?thesis by (simp add: split_def strip_def strip_with_def split_from_leading)
qed

lemma join_sp_ends:
  "g \<noteq> [] \<Longrightarrow> \<forall>t \<in> set g. ok_token t \<Longrightarrow>
   join_sp g \<noteq> [] \<and> \<not> is_space (hd (join_sp g)) \<and> \<not> is_space (last (join_sp g))"
proof (induction g rule: join_sp.induct)
  case 1
  then show ?case by simp
next
  case (2 x)
  then show ?case by (auto simp: ok_token_def)
next
  case (3 x y ys)
  then show ?case by (auto simp: ok_token_def hd_append)
qed

lemma strip_line:
  "s \<noteq> [] \<Longrightarrow> \<not> is_space (hd s) \<Longrightarrow> \<not> is_space (last s) \<Longrightarrow> strip (s @ [newline]) = s"
proof -
  assume a: "s \<noteq> []" "\<not> is_space (hd s)" "\<not> is_space (last s)"
  then have 1: "dropWhile is_space (s @ [newline]) = s @ [newline]"
    by (cases s) simp_all
  have "rev s \<noteq> []" "\<not> is_space (hd (rev s))" using a by (simp_all add: hd_rev)
  then have 2: "dropWhile is_space (rev s) = rev s" by (cases "rev s") simp_all
  show ?thesis by (simp add: strip_def strip_with_def 1 2 is_space_blank)
qed

lemma noblank_ok: "\<forall>t \<in> set ts. ok_token t \<Longrightarrow> noblank ts = ts"
  by (induction ts) (simp_all add: noblank_def ok_token_def)

lemma concat_pairs:
  "concat (concat (map (\<lambda>g. [f g, sep]) gs)) = concat (map (\<lambda>g. f g @ sep) gs)"
  by (induction gs) simp_all

lemma ex_hyphen_run:
  "reflow [hyphen_word @ '' '' @ mid_word @ '' c'' @ [newline]]
     = Some [hyphen_word @ [newline], mid_word @ '' c'' @ [newline]]"
  "reflow [hyphen_word @ [newline], mid_word @ '' c'' @ [newline]]
     = Some [butlast hyphen_word @ mid_word @ '' c'' @ [newline]]"
  "\<not> re_comment hyphen_word"
  "\<not> re_comment (mid_word @ '' c'')"
  by code_simp+

text \<open>
  C9 as stated fails: the output below has lines of 80 and 42 characters and no comment,
  but its first line ends in a hyphen, so the second run joins it to the next line
  without the hyphen.
\<close>

theorem hyphen_rejoined_counterexample:
  "reflow [hyphen_word @ '' '' @ mid_word @ '' c'' @ [newline]]
     = Some [hyphen_word @ [newline], mid_word @ '' c'' @ [newline]]
   \<and> int (length hyphen_word) \<le> CHARS_OPT
   \<and> int (length (mid_word @ '' c'')) \<le> CHARS_OPT
   \<and> \<not> re_comment hyphen_word
   \<and> \<not> re_comment (mid_word @ '' c'')
   \<and> reflow [hyphen_word @ [newline], mid_word @ '' c'' @ [newline]]
       \<noteq> Some [hyphen_word @ [newline], mid_word @ '' c'' @ [newline]]"
proof -
  have "int (length hyphen_word) \<le> CHARS_OPT" "int (length (mid_word @ '' c'')) \<le> CHARS_OPT"
    by (simp_all add: hyphen_word_def mid_word_def CHARS_OPT_def)
  moreover have "reflow [hyphen_word @ [newline], mid_word @ '' c'' @ [newline]]
       \<noteq> Some [hyphen_word @ [newline], mid_word @ '' c'' @ [newline]]"
    unfolding ex_hyphen_run(2) by simp
  ultimately show ?thesis using ex_hyphen_run(1,3,4) by blast
qed

lemma strip_with_ends:
  "strip_with p s \<noteq> [] \<Longrightarrow> \<not> p (hd (strip_with p s)) \<and> \<not> p (last (strip_with p s))"
proof -
  assume ne: "strip_with p s \<noteq> []"
  let ?d = "dropWhile p s"
  let ?e = "dropWhile p (rev ?d)"
  have e: "?e \<noteq> []" using ne by (simp add: strip_with_def)
  then have l: "\<not> p (hd ?e)" by (rule hd_dropWhile)
  have last: "last (strip_with p s) = hd ?e" using e by (simp add: strip_with_def last_rev)
  have d: "?d \<noteq> []" using e by (cases "?d = []") simp_all
  then have hd_d: "\<not> p (hd ?d)" by (rule hd_dropWhile)
  have "rev ?d = takeWhile p (rev ?d) @ ?e" by simp
  then have "?d = rev ?e @ rev (takeWhile p (rev ?d))"
    by (metis rev_append rev_rev_ident)
  then have "hd ?d = hd (rev ?e)" using e by (metis hd_append2 rev_is_Nil_conv)
  then have "\<not> p (hd (strip_with p s))" using hd_d by (simp add: strip_with_def)
  with l last show ?thesis by simp
qed

lemma strip_with_line:
  "s \<noteq> [] \<Longrightarrow> \<not> p (hd s) \<Longrightarrow> \<not> p (last s) \<Longrightarrow> p newline \<Longrightarrow> strip_with p (s @ [newline]) = s"
proof -
  assume a: "s \<noteq> []" "\<not> p (hd s)" "\<not> p (last s)" "p newline"
  then have 1: "dropWhile p (s @ [newline]) = s @ [newline]"
    by (cases s) simp_all
  have "rev s \<noteq> []" "\<not> p (hd (rev s))" using a by (simp_all add: hd_rev)
  then have 2: "dropWhile p (rev s) = rev s" by (cases "rev s") simp_all
  show ?thesis using a(4) by (simp add: strip_with_def 1 2)
qed

lemma exempt_span_form:
  "exempt_span l = Span_str (content (exempt_span l)) False (join_left (exempt_span l)) Forbid"
  by (simp add: exempt_span_def Span_str_def)

lemma not_startspace: "s \<noteq> [] \<Longrightarrow> \<not> is_space (hd s) \<Longrightarrow> \<not> re_startspace (s @ t)"
  by (cases s) (auto simp: re_startspace_def is_space_def tab_def)

lemma separator_output:
  assumes "separator l"
  shows "separator (content (exempt_span l) @ [newline])
         \<and> exempt_span (content (exempt_span l) @ [newline]) = exempt_span l"
proof -
  have np: "\<not> is_prose l" and jl: "join_left (exempt_span l) \<noteq> Prefer"
    using assms by (simp_all add: separator_def)
  have c3: "\<not> re_comment (strip l) \<and> re_singlecommand (strip l)"
    if "\<not> re_startspace l" "strip l \<noteq> []"
  proof -
    have "\<not> re_comment (strip l)"
      using jl that by (cases "re_comment (strip l)") (simp_all add: exempt_span_def Span_str_def)
    then show ?thesis using np that by (simp add: is_prose_def)
  qed
  consider (ws) "re_startspace l"
    | (blank) "\<not> re_startspace l" "strip l = []"
    | (cmd) "\<not> re_startspace l" "strip l \<noteq> []" "\<not> re_comment (strip l)" "re_singlecommand (strip l)"
    using c3 by blast
  then show ?thesis
  proof cases
    case ws
    then obtain c0 l' where l: "l = c0 # l'" and c0: "c0 = CHR '' '' \<or> c0 = tab"
      by (auto simp: re_startspace_def split: list.splits)
    then have c0n: "c0 \<noteq> newline" by (auto simp: newline_def tab_def)
    have d: "dropWhile (\<lambda>c. c = newline) l = l" using l c0n by simp
    have "c0 \<in> set (rev l)" using l by simp
    then have "dropWhile (\<lambda>c. c = newline) (rev l) \<noteq> []"
      using c0n by (metis (mono_tags, lifting) dropWhile_eq_Nil_conv)
    then have ne: "strip_nl l \<noteq> []" by (simp add: strip_nl_def strip_with_def d)
    have "rev l = takeWhile (\<lambda>c. c = newline) (rev l) @ dropWhile (\<lambda>c. c = newline) (rev l)" by simp
    then have "l = strip_nl l @ rev (takeWhile (\<lambda>c. c = newline) (rev l))"
      unfolding strip_nl_def strip_with_def d by (metis rev_append rev_rev_ident)
    then have "hd (strip_nl l) = c0" using ne l by (metis hd_append2 list.sel(1))
    then have rs: "re_startspace (strip_nl l @ [newline])"
      using ne c0 by (cases "strip_nl l") (auto simp: re_startspace_def)
    have ends: "hd (strip_nl l) \<noteq> newline \<and> last (strip_nl l) \<noteq> newline"
      using strip_with_ends [of "\<lambda>c. c = newline" l] ne by (simp add: strip_nl_def)
    have "strip_nl (strip_nl l @ [newline]) = strip_nl l"
      using strip_with_line [of "strip_nl l" "\<lambda>c. c = newline"] ne ends
      by (simp add: strip_nl_def)
    then show ?thesis using ws rs
      by (simp add: separator_def is_prose_def exempt_span_def Span_str_def)
  next
    case blank
    have "strip [newline] = []" by (simp add: strip_def strip_with_def is_space_blank)
    moreover have "\<not> re_startspace [newline]" by (simp add: re_startspace_def newline_def tab_def)
    ultimately show ?thesis using blank
      by (simp add: separator_def is_prose_def exempt_span_def Span_str_def)
  next
    case cmd
    have ends: "\<not> is_space (hd (strip l))" "\<not> is_space (last (strip l))"
      using strip_with_ends [of is_space l] cmd(2) by (simp_all add: strip_def)
    have s: "strip (strip l @ [newline]) = strip l" using cmd(2) ends by (rule strip_line)
    have ns: "\<not> re_startspace (strip l @ [newline])" using cmd(2) ends(1) by (rule not_startspace)
    show ?thesis using cmd ns
      by (simp add: separator_def is_prose_def exempt_span_def Span_str_def s)
  qed
qed

lemma comment_after_weaker: "comment_after q b \<Longrightarrow> p \<noteq> bslash \<Longrightarrow> comment_after p b"
  by (cases b) auto

lemma comment_after_append:
  "comment_after p (a @ b) =
     (comment_after p a \<or> comment_after (if a = [] then p else last a) b)"
  by (induction a arbitrary: p) auto

lemma re_comment_after: "p \<noteq> bslash \<Longrightarrow> re_comment s = comment_after p s"
  by (cases s) (auto simp: re_comment_def)

lemma letter_not_bslash: "CHR ''a'' \<noteq> bslash"
  by (simp add: bslash_def)

lemma no_comment_append:
  assumes "\<not> re_comment a" and "\<not> re_comment b"
  shows "\<not> re_comment (a @ b)"
proof -
  have "\<not> comment_after (CHR ''a'') a" "\<not> comment_after (CHR ''a'') b"
    using assms re_comment_after [OF letter_not_bslash] by simp_all
  then have "\<not> comment_after (CHR ''a'') (a @ b)"
    using comment_after_weaker [OF _ letter_not_bslash] by (auto simp: comment_after_append)
  then show ?thesis using re_comment_after [OF letter_not_bslash] by simp
qed

lemma no_comment_prefix: "\<not> re_comment (a @ b) \<Longrightarrow> \<not> re_comment a"
  using re_comment_after [OF letter_not_bslash] by (simp add: comment_after_append)

lemma no_comment_suffix:
  assumes "\<not> re_comment (a @ c # b)" and "c \<noteq> bslash"
  shows "\<not> re_comment b"
proof -
  have "\<not> comment_after (CHR ''a'') ((a @ [c]) @ b)"
    using assms(1) re_comment_after [OF letter_not_bslash] by simp
  then have "\<not> comment_after c b" unfolding comment_after_append [of _ "a @ [c]" b] by simp
  then have "\<not> comment_after (CHR ''a'') b" using comment_after_weaker [OF _ assms(2)] by blast
  then show ?thesis using re_comment_after [OF letter_not_bslash] by simp
qed

lemma space_not_bslash: "is_space c \<Longrightarrow> c \<noteq> bslash"
  by (auto simp: is_space_def bslash_def)

lemma split_from_no_comment:
  "\<not> re_comment (w @ s) \<Longrightarrow> t \<in> set (split_from w s) \<Longrightarrow> \<not> re_comment t"
proof (induction s arbitrary: w)
  case Nil
  then show ?case by (auto split: if_splits)
next
  case (Cons c s)
  show ?case
  proof (cases "is_space c")
    case True
    have w: "\<not> re_comment w" using Cons.prems(1) by (rule no_comment_prefix)
    have s: "\<not> re_comment ([] @ s)"
      using no_comment_suffix [OF Cons.prems(1) space_not_bslash [OF True]] by simp
    from Cons.prems(2) True have "t = w \<or> t \<in> set (split_from [] s)"
      by (auto split: if_splits)
    then show ?thesis using w Cons.IH [OF s] by blast
  next
    case False
    then have "t \<in> set (split_from (w @ [c]) s)" using Cons.prems(2) by simp
    moreover have "\<not> re_comment ((w @ [c]) @ s)" using Cons.prems(1) by simp
    ultimately show ?thesis using Cons.IH by blast
  qed
qed

lemma join_sp_no_comment: "\<forall>t \<in> set g. \<not> re_comment t \<Longrightarrow> \<not> re_comment (join_sp g)"
proof (induction g rule: join_sp.induct)
  case 1
  show ?case by (simp add: re_comment_def)
next
  case (2 x)
  then show ?case by simp
next
  case (3 x y ys)
  have "\<not> re_comment '' ''" by (simp add: re_comment_def)
  moreover have "\<not> re_comment (join_sp (y # ys))" using 3 by simp
  ultimately have r: "\<not> re_comment ('' '' @ join_sp (y # ys))" by (rule no_comment_append)
  have x: "\<not> re_comment x" using 3(2) by simp
  from x r have "\<not> re_comment (x @ '' '' @ join_sp (y # ys))" by (rule no_comment_append)
  then show ?case by simp
qed

lemma prose_part_no_comment: "is_prose l \<Longrightarrow> \<not> re_comment (concat (prose_part l))"
proof -
  assume p: "is_prose l"
  then have s: "\<not> re_comment (strip l)" "strip l \<noteq> []" by (simp_all add: is_prose_def)
  have "strip l = butlast (strip l) @ [last (strip l)]" using s(2) by simp
  then have b: "\<not> re_comment (butlast (strip l))" using s(1) no_comment_prefix by metis
  have sp: "\<not> re_comment '' ''" by (simp add: re_comment_def)
  have "\<not> re_comment (strip l @ '' '')" using s(1) sp by (rule no_comment_append)
  with b show ?thesis by (simp add: prose_part_def Let_def)
qed

lemma block_no_comment:
  "\<forall>l \<in> set block. is_prose l \<Longrightarrow> \<not> re_comment (concat (concat (map prose_part block)))"
proof (induction block)
  case Nil
  show ?case by (simp add: re_comment_def)
next
  case (Cons l block)
  then have "\<not> re_comment (concat (prose_part l))"
      "\<not> re_comment (concat (concat (map prose_part block)))"
    by (simp_all add: prose_part_no_comment)
  then have "\<not> re_comment (concat (prose_part l) @ concat (concat (map prose_part block)))"
    by (rule no_comment_append)
  then show ?case by simp
qed

lemma block_output:
  assumes "\<forall>l \<in> set block. is_prose l"
  shows "\<exists>groups.
           segment (split (strip (concat (concat (map prose_part block))))) = Some (map join_sp groups)
         \<and> concat groups = split (strip (concat (concat (map prose_part block))))
         \<and> (\<forall>g \<in> set groups. \<forall>t \<in> set g. ok_token t \<and> \<not> re_comment t)"
proof -
  let ?X = "concat (concat (map prose_part block))"
  let ?T = "split (strip ?X)"
  have ok: "\<forall>t \<in> set ?T. ok_token t" using split_ok by blast
  have "\<not> re_comment ([] @ ?X)" using block_no_comment [OF assms] by simp
  then have "\<forall>t \<in> set (split_from [] ?X). \<not> re_comment t"
    using split_from_no_comment by blast
  then have nc: "\<forall>t \<in> set ?T. \<not> re_comment t" by (simp add: split_strip) (simp add: split_def)
  obtain groups where seg: "segment ?T = Some (map join_sp groups)"
      and cg: "concat groups = noblank ?T"
    using segment_groups_concat by blast
  from cg ok have cg': "concat groups = ?T" by (simp add: noblank_ok)
  have "\<forall>g \<in> set groups. \<forall>t \<in> set g. ok_token t \<and> \<not> re_comment t"
  proof (intro ballI)
    fix g t assume "g \<in> set groups" "t \<in> set g"
    then have "t \<in> set (concat groups)" by auto
    then show "ok_token t \<and> \<not> re_comment t" using ok nc cg' by simp
  qed
  with seg cg' show ?thesis by blast
qed

lemma output_line_shape:
  assumes g: "\<forall>t \<in> set g. ok_token t \<and> \<not> re_comment t" and ne: "g \<noteq> []"
  shows "join_sp g \<noteq> []" and "strip (join_sp g @ [newline]) = join_sp g"
    and "\<not> re_startspace (join_sp g @ [newline])" and "\<not> re_comment (join_sp g)"
proof -
  have e: "join_sp g \<noteq> []" "\<not> is_space (hd (join_sp g))" "\<not> is_space (last (join_sp g))"
    using join_sp_ends [OF ne] g by blast+
  show "join_sp g \<noteq> []" by (rule e(1))
  show "strip (join_sp g @ [newline]) = join_sp g" using e by (rule strip_line)
  show "\<not> re_startspace (join_sp g @ [newline])" using e(1,2) by (rule not_startspace)
  show "\<not> re_comment (join_sp g)" using g by (intro join_sp_no_comment) blast
qed

lemma stable_output_line:
  assumes g: "\<forall>t \<in> set g. ok_token t \<and> \<not> re_comment t" and st: "stable_line (join_sp g)"
  shows "plain_prose (join_sp g @ [newline]) \<and> prose_part (join_sp g @ [newline]) = [join_sp g, '' '']"
proof -
  from st have "join_sp g \<noteq> []" by (simp add: stable_line_def)
  then have ne: "g \<noteq> []" by auto
  note sh = output_line_shape [OF g ne]
  have pp: "prose_part (join_sp g @ [newline]) = [join_sp g, '' '']"
    using st by (simp add: prose_part_def sh(2) stable_line_def)
  have "plain_prose (join_sp g @ [newline])"
    using st sh by (simp add: plain_prose_def is_prose_def pp stable_line_def)
  with pp show ?thesis by blast
qed

lemma rerun_plain_lines:
  assumes tok: "\<forall>g \<in> set groups. \<forall>t \<in> set g. ok_token t \<and> \<not> re_comment t"
    and st: "\<forall>g \<in> set groups. stable_line (join_sp g)"
  shows "(\<forall>l \<in> set (map (\<lambda>g. join_sp g @ [newline]) groups). plain_prose l)
       \<and> concat (map prose_part (map (\<lambda>g. join_sp g @ [newline]) groups))
           = concat (map (\<lambda>g. [join_sp g, '' '']) groups)"
proof -
  have each: "plain_prose (join_sp g @ [newline])
              \<and> prose_part (join_sp g @ [newline]) = [join_sp g, '' '']" if "g \<in> set groups" for g
    using tok st that by (intro stable_output_line) auto
  then have "\<forall>l \<in> set (map (\<lambda>g. join_sp g @ [newline]) groups). plain_prose l" by auto
  moreover have "concat (map prose_part (map (\<lambda>g. join_sp g @ [newline]) groups))
           = concat (map (\<lambda>g. [join_sp g, '' '']) groups)"
    using each by (simp add: comp_def cong: map_cong)
  ultimately show ?thesis by blast
qed

lemma rerun_tokens:
  assumes tok: "\<forall>g \<in> set groups. \<forall>t \<in> set g. ok_token t \<and> \<not> re_comment t"
  shows "split (strip (concat (concat (map (\<lambda>g. [join_sp g, '' '']) groups)))) = concat groups"
proof -
  have "\<forall>g \<in> set groups. \<forall>t \<in> set g. ok_token t" using tok by blast
  then show ?thesis using split_lines by (simp add: concat_pairs split_strip)
qed

lemma paragraphs_break:
  "\<forall>x \<in> set block. plain_prose x \<Longrightarrow> breaking_prose l \<Longrightarrow>
   paragraphs_loop True cur (block @ l # rest) =
     Span_parts (cur @ concat (map prose_part (block @ [l]))) True Allow Forbid
       # paragraphs_loop True [] rest"
proof (induction block arbitrary: cur)
  case Nil
  then have c: "\<not> re_startspace l" "strip l \<noteq> []" "\<not> re_comment (strip l)"
      "\<not> re_singlecommand (strip l)"
      "re_endbreak (if last (strip l) = CHR ''-'' then butlast (strip l) else strip l)"
    by (simp_all add: breaking_prose_def is_prose_def prose_part_def Let_def)
  show ?case using c by (simp add: Let_def prose_part_def)
next
  case (Cons x block)
  then have p: "plain_prose x" and rest: "\<forall>x \<in> set block. plain_prose x" by simp_all
  from p have c: "\<not> re_startspace x" "strip x \<noteq> []" "\<not> re_comment (strip x)"
      "\<not> re_singlecommand (strip x)"
      "\<not> re_endbreak (if last (strip x) = CHR ''-'' then butlast (strip x) else strip x)"
    by (simp_all add: plain_prose_def is_prose_def prose_part_def Let_def)
  show ?case
    using c Cons.IH [OF rest Cons.prems(2)] by (simp add: Let_def prose_part_def)
qed

lemma reflow_break:
  assumes pl: "\<forall>x \<in> set block. plain_prose x" and br: "breaking_prose l"
    and seg: "segment (split (strip (concat (concat (map prose_part (block @ [l])))))) = Some segs"
    and b: "reflow rest = Some b"
  shows "reflow (block @ l # rest) = Some (map (\<lambda>s. s @ [newline]) segs @ b)"
proof -
  let ?t = "tokenize (Span_parts (concat (map prose_part (block @ [l]))) True Allow Forbid)"
  let ?B = "map tokenize (paragraphs_loop True [] rest)"
  have t: "content ?t = split (strip (concat (concat (map prose_part (block @ [l])))))"
      "segment_flag ?t" "join_right ?t = Forbid"
    by (simp_all add: tokenize_def Span_parts_def)
  have "map tokenize (paragraphs (block @ l # rest) True) = ?t # ?B"
    using paragraphs_break [OF pl br, of "[]" rest] by (simp add: paragraphs_def)
  then have "join_spans (map tokenize (paragraphs (block @ l # rest) True)) = ?t # join_loop None ?B"
    using t(3) by (simp add: join_spans_def join_loop_Forbid)
  moreover have "segment_spans (join_loop None ?B) = Some b"
    using b by (simp add: reflow_def join_spans_def paragraphs_def)
  ultimately show ?thesis using t(1,2) seg by (simp add: reflow_def)
qed

lemma split_from_suffix:
  "e \<noteq> [] \<Longrightarrow> \<forall>c \<in> set e. \<not> is_space c \<Longrightarrow> \<forall>c \<in> set ws. is_space c \<Longrightarrow>
   \<exists>ts u. split_from w (z @ e @ ws) = ts @ [u @ e]"
proof (induction z arbitrary: w)
  case Nil
  have "split_from w (e @ ws) = split_from (w @ e) ws" using Nil(2) by (rule split_from_nonspace)
  also have "\<dots> = [w @ e]" using Nil(1,3) by (simp add: split_from_spaces)
  finally show ?case by auto
next
  case (Cons c z)
  show ?case
  proof (cases "is_space c")
    case True
    obtain ts u where "split_from [] (z @ e @ ws) = ts @ [u @ e]"
      using Cons.IH [OF Cons.prems] by blast
    then have "split_from w ((c # z) @ e @ ws) = (if w = [] then ts else w # ts) @ [u @ e]"
      using True by simp
    then show ?thesis by blast
  next
    case False
    obtain ts u where "split_from (w @ [c]) (z @ e @ ws) = ts @ [u @ e]"
      using Cons.IH [OF Cons.prems] by blast
    then show ?thesis using False by simp
  qed
qed

lemma endbreak_form:
  assumes "re_endbreak h"
  shows "\<exists>q ws. h = q @ [bslash, bslash] @ ws \<and> (\<forall>c \<in> set ws. is_space c)"
proof -
  have f: "\<exists>q. b = q @ [bslash, bslash]" if "ends_bslashes b" for b
  proof -
    from that have "drop (length b - 2) b = [bslash, bslash]" by (simp add: ends_bslashes_def)
    then have "b = take (length b - 2) b @ [bslash, bslash]"
      by (metis append_take_drop_id)
    then show ?thesis by blast
  qed
  from assms consider "ends_bslashes h" | "h \<noteq> []" "last h = newline" "ends_bslashes (butlast h)"
    by (auto simp: re_endbreak_def at_dollar_def)
  then show ?thesis
  proof cases
    case 1
    then obtain q where "h = q @ [bslash, bslash] @ []" using f by auto
    then show ?thesis by (metis empty_iff list.set(1))
  next
    case 2
    then obtain q where "butlast h = q @ [bslash, bslash]" using f by blast
    with 2(1,2) have "h = q @ [bslash, bslash] @ [newline]"
      by (metis append.assoc append_butlast_last_id)
    moreover have "\<forall>c \<in> set [newline]. is_space c" by (simp add: is_space_blank)
    ultimately show ?thesis by blast
  qed
qed

lemma bslash_not_space: "\<not> is_space bslash"
  by (simp add: is_space_def bslash_def)

lemma block_last_token:
  assumes "breaking_prose l"
  shows "\<exists>ts u. split (strip (concat (concat (map prose_part (block @ [l])))))
                  = ts @ [u @ [bslash, bslash]]"
proof -
  define sep where "sep = (if last (strip l) = CHR ''-'' then [] else '' '')"
  define Y where "Y = concat (concat (map prose_part block))"
  have pp: "concat (prose_part l) = hd (prose_part l) @ sep"
    by (simp add: prose_part_def Let_def sep_def)
  have "re_endbreak (hd (prose_part l))" using assms by (simp add: breaking_prose_def)
  from endbreak_form [OF this]
  obtain q ws where h: "hd (prose_part l) = q @ [bslash, bslash] @ ws"
      and ws: "\<forall>c \<in> set ws. is_space c"
    by blast
  have sp: "\<forall>c \<in> set (ws @ sep). is_space c" using ws by (simp add: sep_def is_space_blank)
  have X: "concat (concat (map prose_part (block @ [l])))
          = (Y @ q) @ [bslash, bslash] @ (ws @ sep)"
    by (simp add: pp h Y_def)
  have e1: "[bslash, bslash] \<noteq> []" by simp
  have e2: "\<forall>c \<in> set [bslash, bslash]. \<not> is_space c" by (simp add: bslash_not_space)
  obtain ts u where s: "split_from [] ((Y @ q) @ [bslash, bslash] @ (ws @ sep))
       = ts @ [u @ [bslash, bslash]]"
    using split_from_suffix [OF e1 e2 sp] by blast
  have e: "split (strip z) = split_from [] z" for z
    by (simp add: split_strip) (simp add: split_def)
  show ?thesis unfolding e X using s by blast
qed

lemma endbreak_line:
  assumes "t = q @ [bslash, bslash]"
  shows "re_endbreak t" and "\<not> re_singlecommand t" and "last t \<noteq> CHR ''-''" and "t \<noteq> []"
proof -
  show "re_endbreak t" using assms by (simp add: re_endbreak_def at_dollar_def ends_bslashes_def)
  show "last t \<noteq> CHR ''-''" using assms by (simp add: bslash_def)
  show "t \<noteq> []" using assms by simp
  show "\<not> re_singlecommand t"
  proof (cases q)
    case Nil
    then show ?thesis using assms
      by (simp add: re_singlecommand_def at_dollar_def ends_brace_def ends_brace_pct_def
          bslash_def newline_def)
  next
    case (Cons c q')
    then have "t = c # (q' @ [bslash, bslash])" using assms by simp
    then show ?thesis
      by (simp add: re_singlecommand_def at_dollar_def ends_brace_def ends_brace_pct_def
          bslash_def newline_def)
  qed
qed

lemma rerun_break_line:
  assumes g: "\<forall>t \<in> set g. ok_token t \<and> \<not> re_comment t" and e: "join_sp g = q @ [bslash, bslash]"
  shows "breaking_prose (join_sp g @ [newline]) \<and> prose_part (join_sp g @ [newline]) = [join_sp g, '' '']"
proof -
  note eb = endbreak_line [OF e]
  from eb(4) have ne: "g \<noteq> []" by auto
  note sh = output_line_shape [OF g ne]
  have pp: "prose_part (join_sp g @ [newline]) = [join_sp g, '' '']"
    using eb(3) by (simp add: prose_part_def sh(2))
  have "breaking_prose (join_sp g @ [newline])"
    using eb sh by (simp add: breaking_prose_def is_prose_def pp)
  with pp show ?thesis by blast
qed

lemma stable_block_fixed:
  assumes pl: "\<forall>l \<in> set block. plain_prose l" and sb: "stable_block block"
  shows "\<exists>out. reflow block = Some out \<and> reflow out = Some out"
proof -
  let ?T = "split (strip (concat (concat (map prose_part block))))"
  let ?nl = "\<lambda>g. join_sp g @ [newline]"
  have pr: "\<forall>l \<in> set block. is_prose l" using pl by (simp add: plain_prose_def)
  obtain groups where seg: "segment ?T = Some (map join_sp groups)"
      and cg: "concat groups = ?T"
      and tok: "\<forall>g \<in> set groups. \<forall>t \<in> set g. ok_token t \<and> \<not> re_comment t"
    using block_output [OF pr] by blast
  have o: "reflow block = Some (map ?nl groups)"
    using reflow_plain [OF pl] seg by (simp add: comp_def)
  from sb o have c: "single_line (map ?nl groups)
                     \<or> list_all (\<lambda>line. stable_line (butlast line)) (map ?nl groups)"
    by (simp add: stable_block_def)
  have "reflow (map ?nl groups) = Some (map ?nl groups)"
  proof (cases "\<forall>g \<in> set groups. stable_line (join_sp g)")
    case True
    from rerun_plain_lines [OF tok True]
    have plain: "\<forall>l \<in> set (map ?nl groups). plain_prose l"
      and parts: "concat (map prose_part (map ?nl groups)) = concat (map (\<lambda>g. [join_sp g, '' '']) groups)"
      by blast+
    have "split (strip (concat (concat (map prose_part (map ?nl groups))))) = ?T"
      unfolding parts using rerun_tokens [OF tok] cg by simp
    then have "reflow (map ?nl groups) = map_option (map (\<lambda>seg. seg @ [newline])) (segment ?T)"
      using reflow_plain [OF plain] by simp
    then show ?thesis using seg by (simp add: comp_def)
  next
    case False
    then have "\<not> list_all (\<lambda>line. stable_line (butlast line)) (map ?nl groups)"
      by (simp add: list_all_iff butlast_append)
    with c have sl: "single_line (map ?nl groups)" by blast
    then obtain g where g: "groups = [g]" and hy: "last (join_sp g) \<noteq> CHR ''-''"
      by (cases groups) (auto simp: single_line_def butlast_append split: list.splits)
    from False g have ns: "\<not> stable_line (join_sp g)" by simp
    have gT: "?T = g" using cg g by simp
    have gne: "g \<noteq> []"
    proof
      assume "g = []"
      then have "segment [] = Some [[]]" using seg g gT by simp
      then show False by (simp add: segment_Nil)
    qed
    have tg: "\<forall>t \<in> set g. ok_token t \<and> \<not> re_comment t" using tok g by simp
    note sh = output_line_shape [OF tg gne]
    show ?thesis
    proof (cases "re_singlecommand (join_sp g)")
      case True
      have np: "\<not> is_prose (join_sp g @ [newline])" using True by (simp add: is_prose_def sh(2))
      have ev: "exempt_span (join_sp g @ [newline]) = Span_str (join_sp g) False Forbid Forbid"
        using sh by (simp add: exempt_span_def)
      have d: "Forbid \<noteq> Prefer" by simp
      from reflow_split_forbid [OF np ev d, of "[]" "[]"] show ?thesis
        by (simp add: g reflow_Nil)
    next
      case notcmd: False
      then have eb: "re_endbreak (join_sp g)" using ns sh(1) hy by (simp add: stable_line_def)
      have pp: "prose_part (join_sp g @ [newline]) = [join_sp g, '' '']"
        using hy by (simp add: prose_part_def sh(2))
      have br: "breaking_prose (join_sp g @ [newline])"
        using sh notcmd eb by (simp add: breaking_prose_def is_prose_def pp)
      have "split (strip (concat (concat (map (\<lambda>g. [join_sp g, '' '']) [g])))) = concat [g]"
        by (rule rerun_tokens) (simp add: tg)
      then have "split (strip (concat (concat (map prose_part ([] @ [join_sp g @ [newline]]))))) = ?T"
        by (simp add: pp gT)
      then have s2: "segment (split (strip (concat (concat (map prose_part ([] @ [join_sp g @ [newline]]))))))
                  = Some (map join_sp groups)"
        using seg by simp
      have e: "\<forall>x \<in> set []. plain_prose x" by simp
      from reflow_break [OF e br s2 reflow_Nil] show ?thesis by (simp add: g)
    qed
  qed
  with o show ?thesis by blast
qed

lemma break_block_fixed:
  assumes pl: "\<forall>x \<in> set block. plain_prose x" and br: "breaking_prose l"
    and sb: "stable_break_block (block @ [l])"
    and b: "reflow rest = Some b" "reflow b = Some b"
  shows "\<exists>out. reflow (block @ l # rest) = Some out \<and> reflow out = Some out"
proof -
  let ?T = "split (strip (concat (concat (map prose_part (block @ [l])))))"
  let ?nl = "\<lambda>g. join_sp g @ [newline]"
  have pr: "\<forall>x \<in> set (block @ [l]). is_prose x"
    using pl br by (auto simp: plain_prose_def breaking_prose_def)
  obtain groups where seg: "segment ?T = Some (map join_sp groups)"
      and cg: "concat groups = ?T"
      and tok: "\<forall>g \<in> set groups. \<forall>t \<in> set g. ok_token t \<and> \<not> re_comment t"
    using block_output [OF pr] by blast
  have 1: "reflow (block @ l # rest) = Some (map ?nl groups @ b)"
    using reflow_break [OF pl br seg b(1)] by (simp add: comp_def)
  have 0: "reflow (block @ [l]) = Some (map ?nl groups)"
    using reflow_break [OF pl br seg reflow_Nil] by (simp add: comp_def)
  obtain ts u where T: "?T = ts @ [u @ [bslash, bslash]]"
    using block_last_token [OF br] by blast
  have "u @ [bslash, bslash] \<noteq> []" by simp
  then obtain ls p where "segment (ts @ [u @ [bslash, bslash]]) = Some (ls @ [p @ u @ [bslash, bslash]])"
    using segment_last by blast
  then have m: "map join_sp groups = ls @ [p @ u @ [bslash, bslash]]" using seg T by simp
  then have gne: "groups \<noteq> []" by auto
  have "last (map join_sp groups) = p @ u @ [bslash, bslash]" unfolding m by simp
  then have lastg: "join_sp (last groups) = (p @ u) @ [bslash, bslash]"
    using gne by (simp add: last_map)
  have gs: "groups = butlast groups @ [last groups]" using gne by simp
  have tokA: "\<forall>g \<in> set (butlast groups). \<forall>t \<in> set g. ok_token t \<and> \<not> re_comment t"
    using tok by (meson in_set_butlastD)
  have tokl: "\<forall>t \<in> set (last groups). ok_token t \<and> \<not> re_comment t"
    using tok gne last_in_set by blast
  from sb 0 have "list_all (\<lambda>line. stable_line (butlast line)) (butlast (map ?nl groups))"
    by (simp add: stable_break_block_def)
  then have stA: "\<forall>g \<in> set (butlast groups). stable_line (join_sp g)"
    by (simp add: map_butlast [symmetric] list_all_iff butlast_append)
  from rerun_plain_lines [OF tokA stA]
  have plA: "\<forall>x \<in> set (map ?nl (butlast groups)). plain_prose x"
    and partsA: "concat (map prose_part (map ?nl (butlast groups)))
                   = concat (map (\<lambda>g. [join_sp g, '' '']) (butlast groups))"
    by blast+
  from rerun_break_line [OF tokl lastg]
  have brl: "breaking_prose (?nl (last groups))"
    and ppl: "prose_part (?nl (last groups)) = [join_sp (last groups), '' '']"
    by blast+
  have "concat (map prose_part (map ?nl (butlast groups) @ [?nl (last groups)]))
          = concat (map (\<lambda>g. [join_sp g, '' '']) (butlast groups @ [last groups]))"
    using partsA ppl by simp
  then have "concat (map prose_part (map ?nl (butlast groups) @ [?nl (last groups)]))
          = concat (map (\<lambda>g. [join_sp g, '' '']) groups)"
    using gs by simp
  then have "split (strip (concat (concat (map prose_part (map ?nl (butlast groups) @ [?nl (last groups)])))))
          = ?T"
    using rerun_tokens [OF tok] cg by simp
  then have seg': "segment (split (strip (concat (concat
               (map prose_part (map ?nl (butlast groups) @ [?nl (last groups)])))))) = Some (map join_sp groups)"
    using seg by simp
  have "reflow (map ?nl (butlast groups) @ ?nl (last groups) # b) = Some (map ?nl groups @ b)"
    using reflow_break [OF plA brl seg' b(2)] by (simp add: comp_def)
  moreover have "map ?nl (butlast groups) @ ?nl (last groups) # b = map ?nl groups @ b"
  proof -
    have "map ?nl groups = map ?nl (butlast groups @ [last groups])" using gs by simp
    then show ?thesis by simp
  qed
  ultimately have "reflow (map ?nl groups @ b) = Some (map ?nl groups @ b)" by simp
  with 1 show ?thesis by blast
qed

lemma settled_fixed:
  "settled block items \<Longrightarrow> \<forall>l \<in> set block. plain_prose l \<Longrightarrow>
   \<exists>out. reflow (block @ items) = Some out \<and> reflow out = Some out"
proof (induction items arbitrary: block)
  case Nil
  then show ?case using stable_block_fixed [of block] by simp
next
  case (Cons l ls)
  consider (plain) "plain_prose l" | (break) "\<not> plain_prose l" "breaking_prose l"
    | (other) "\<not> plain_prose l" "\<not> breaking_prose l"
    by blast
  then show ?case
  proof cases
    case plain
    then have "settled (block @ [l]) ls" "\<forall>x \<in> set (block @ [l]). plain_prose x"
      using Cons.prems by simp_all
    from Cons.IH [OF this] show ?thesis by simp
  next
    case break
    then have sb: "stable_break_block (block @ [l])" and rest: "settled [] ls"
      using Cons.prems(1) by simp_all
    obtain b where b: "reflow ls = Some b" "reflow b = Some b"
      using Cons.IH [OF rest] by auto
    show ?thesis by (rule break_block_fixed [OF Cons.prems(2) break(2) sb b])
  next
    case other
    then have sep: "separator l" and sb: "stable_block block" and rest: "settled [] ls"
      using Cons.prems(1) by simp_all
    let ?c = "content (exempt_span l)"
    let ?jl = "join_left (exempt_span l)"
    let ?v = "?c @ [newline]"
    have np: "\<not> is_prose l" and jl: "?jl \<noteq> Prefer" using sep by (simp_all add: separator_def)
    obtain a where a: "reflow block = Some a" "reflow a = Some a"
      using stable_block_fixed [OF Cons.prems(2) sb] by blast
    obtain b where b: "reflow ls = Some b" "reflow b = Some b"
      using Cons.IH [OF rest] by auto
    have 1: "reflow (block @ l # ls) = Some (a @ ?v # b)"
      using reflow_split_forbid [OF np exempt_span_form jl, of block ls] a(1) b(1) by auto
    have sv: "separator ?v" and ev: "exempt_span ?v = exempt_span l"
      using separator_output [OF sep] by simp_all
    have npv: "\<not> is_prose ?v" using sv by (simp add: separator_def)
    have fv: "exempt_span ?v = Span_str ?c False ?jl Forbid"
      unfolding ev by (rule exempt_span_form)
    have 2: "reflow (a @ ?v # b) = Some (a @ ?v # b)"
      using reflow_split_forbid [OF npv fv jl, of a b] a(2) b(2) by auto
    from 1 2 show ?thesis by blast
  qed
qed

text \<open>
  When the second run takes a line of a paragraph's output for a single command, or for
  the end of a paragraph before the paragraph's last line, it segments the words after
  that line on their own, and may break them elsewhere: below, lines of 4 and 5 words
  become lines of 3 and 6.
\<close>

lemma split_paragraph_example:
  "reflow [command70 @ '' '' @ join_sp (replicate 9 word21) @ [newline]]
     = Some [command70 @ [newline], join_sp (replicate 4 word21) @ [newline],
             join_sp (replicate 5 word21) @ [newline]]"
  "reflow [command70 @ [newline], join_sp (replicate 4 word21) @ [newline],
           join_sp (replicate 5 word21) @ [newline]]
     = Some [command70 @ [newline], join_sp (replicate 3 word21) @ [newline],
             join_sp (replicate 6 word21) @ [newline]]"
  "reflow [break70 @ '' '' @ join_sp (replicate 9 word22) @ [newline]]
     = Some [break70 @ [newline], join_sp (replicate 4 word22) @ [newline],
             join_sp (replicate 5 word22) @ [newline]]"
  "reflow [break70 @ [newline], join_sp (replicate 4 word22) @ [newline],
           join_sp (replicate 5 word22) @ [newline]]
     = Some [break70 @ [newline], join_sp (replicate 3 word22) @ [newline],
             join_sp (replicate 6 word22) @ [newline]]"
  "re_singlecommand command70"
  "re_endbreak break70"
  by code_simp+

text \<open>
  The segmenter can put an empty line before the lines of a paragraph; the second run
  then puts another one before it.
\<close>

lemma empty_line_example:
  "reflow [word130 @ '' '' @ word80 @ '' c'' @ [newline]]
     = Some [[newline], word130 @ '' '' @ word80 @ '' c'' @ [newline]]"
  "reflow [[newline], word130 @ '' '' @ word80 @ '' c'' @ [newline]]
     = Some [[newline], [newline], word130 @ '' '' @ word80 @ '' c'' @ [newline]]"
  by code_simp+

text \<open>
  C9, as amended. Let the input have no comment line, and let the output of every
  paragraph (consecutive prose lines up to and including one that ends in a hard line
  break, or up to a blank line, an indented line, a single-command line or the end of
  the input) be one line that does not end in a hyphen, or have no line that is empty,
  matches the single-command pattern, ends in a hyphen or, unless it is the last line of
  a paragraph closed by a hard line break, ends in two backslashes. Then the pipeline
  returns on the input, and run on its own output it returns that output again.
\<close>

theorem settled_fixed_point:
  "settled [] items \<Longrightarrow> \<exists>out. reflow items = Some out \<and> reflow out = Some out"
  using settled_fixed [of "[]" items] by simp

lemma ex_settled:
  "settled [] [''First sentence here.'' @ [newline], ''Second one ends'' @ [bslash, bslash, newline],
               ''Third follows.'' @ [newline], [newline], ''  indented'' @ [newline],
               ''More prose.'' @ [newline]]"
  "reflow [''First sentence here.'' @ [newline], ''Second one ends'' @ [bslash, bslash, newline],
           ''Third follows.'' @ [newline], [newline], ''  indented'' @ [newline],
           ''More prose.'' @ [newline]]
     = Some [''First sentence here. Second one ends'' @ [bslash, bslash, newline],
             ''Third follows.'' @ [newline], [newline], ''  indented'' @ [newline],
             ''More prose.'' @ [newline]]"
  by code_simp+

theorem settled_fixed_point_witness:
  "settled [] [''First sentence here.'' @ [newline], ''Second one ends'' @ [bslash, bslash, newline],
               ''Third follows.'' @ [newline], [newline], ''  indented'' @ [newline],
               ''More prose.'' @ [newline]]
   \<and> reflow [''First sentence here.'' @ [newline], ''Second one ends'' @ [bslash, bslash, newline],
           ''Third follows.'' @ [newline], [newline], ''  indented'' @ [newline],
           ''More prose.'' @ [newline]]
     = Some [''First sentence here. Second one ends'' @ [bslash, bslash, newline],
             ''Third follows.'' @ [newline], [newline], ''  indented'' @ [newline],
             ''More prose.'' @ [newline]]
   \<and> reflow [''First sentence here. Second one ends'' @ [bslash, bslash, newline],
             ''Third follows.'' @ [newline], [newline], ''  indented'' @ [newline],
             ''More prose.'' @ [newline]]
     = Some [''First sentence here. Second one ends'' @ [bslash, bslash, newline],
             ''Third follows.'' @ [newline], [newline], ''  indented'' @ [newline],
             ''More prose.'' @ [newline]]"
proof -
  from settled_fixed_point [OF ex_settled(1)] obtain out where
    "reflow [''First sentence here.'' @ [newline], ''Second one ends'' @ [bslash, bslash, newline],
           ''Third follows.'' @ [newline], [newline], ''  indented'' @ [newline],
           ''More prose.'' @ [newline]] = Some out"
    and "reflow out = Some out"
    by blast
  then have "reflow [''First sentence here. Second one ends'' @ [bslash, bslash, newline],
             ''Third follows.'' @ [newline], [newline], ''  indented'' @ [newline],
             ''More prose.'' @ [newline]]
     = Some [''First sentence here. Second one ends'' @ [bslash, bslash, newline],
             ''Third follows.'' @ [newline], [newline], ''  indented'' @ [newline],
             ''More prose.'' @ [newline]]"
    unfolding ex_settled(2) by simp
  with ex_settled show ?thesis by blast
qed

end
